theory Spec2Isabelle
  imports Complex_Main "HOL-Library.Word" "HOL-Library.Multiset"
begin

unbundle bit_operations_syntax

section \<open>The theater lottery of index.js\<close>

text \<open>
  A shallow embedding of \<^verbatim>\<open>src/index.js\<close>. The script reads a configuration, a list of
  theaters (shows) and a list of orders (applicants with ranked preferences), runs a
  round-based lottery and, when enabled, a vacancy (backfill) lottery, and writes who won
  what. File reading and writing are outside the model: the functions below take the parsed
  rows and return the final objects.
\<close>

subsection \<open>Data\<close>

text \<open>
  A JavaScript \<^verbatim>\<open>Set\<close> keeps its elements in insertion order and ignores the insertion
  of an element it already has. It is modelled as the list of its elements in insertion
  order: \<open>set_add\<close> is \<^verbatim>\<open>Set.prototype.add\<close>, \<open>length\<close> is \<^verbatim>\<open>size\<close>, membership in
  \<open>set xs\<close> is \<^verbatim>\<open>has\<close>.
\<close>

definition set_add :: "'a \<Rightarrow> 'a list \<Rightarrow> 'a list" where
  "set_add x xs = (if x \<in> set xs then xs else xs @ [x])"

definition new_Set :: "'a list \<Rightarrow> 'a list" where
  "new_Set xs = fold set_add xs []"

text \<open>
  A number that may be \<^verbatim>\<open>NaN\<close>: the capacity of a theater is \<^verbatim>\<open>parseInt(cols[3], 10)\<close>,
  an integer or \<^verbatim>\<open>NaN\<close> (\<open>None\<close>). Every comparison with \<^verbatim>\<open>NaN\<close> is false and every
  subtraction with it is \<^verbatim>\<open>NaN\<close>.
\<close>

type_synonym jsnum = "int option"

definition num_le :: "jsnum \<Rightarrow> jsnum \<Rightarrow> bool" where
  "num_le a b = (case (a, b) of (Some x, Some y) \<Rightarrow> x \<le> y | _ \<Rightarrow> False)"

definition num_sub :: "jsnum \<Rightarrow> jsnum \<Rightarrow> jsnum" where
  "num_sub a b = (case (a, b) of (Some x, Some y) \<Rightarrow> Some (x - y) | _ \<Rightarrow> None)"

definition of_size :: "nat \<Rightarrow> jsnum" where
  "of_size n = Some (int n)"

text \<open>
  The objects built by \<^verbatim>\<open>main\<close> (lines 448-461). A preference is a theater id or
  \<^verbatim>\<open>null\<close>; the time slot and the play of a theater are \<^verbatim>\<open>undefined\<close> (\<open>None\<close>) when
  the row is too short. The field \<^verbatim>\<open>id\<close> is written \<open>p_id\<close> and \<open>t_id\<close>, the field
  \<^verbatim>\<open>assigned\<close> is \<open>p_assigned\<close> (the theater ids a person has won) and \<open>t_assigned\<close>
  (the person ids that hold a seat of the theater).
\<close>

record person =
  p_id :: string
  prefs :: "string option list"
  p_assigned :: "string list"

record theater =
  t_id :: string
  timeSlot :: "string option"
  play :: "string option"
  capacity :: jsnum
  t_assigned :: "string list"

subsection \<open>The seeded random number generator (lines 93-108)\<close>

text \<open>
  The four variables of the closure. Every use of them goes through a 32-bit operator, so
  they are 32-bit words; the seed, a JavaScript number holding an integer, enters them
  modulo \<open>2 ^ 32\<close> (\<^verbatim>\<open>ToInt32\<close>). \<^verbatim>\<open><<\<close> is \<open>push_bit\<close>, the sign-propagating \<^verbatim>\<open>>>\<close>
  is \<open>signed_drop_bit\<close>. A call returns \<^verbatim>\<open>(w >>> 0) / 4294967296\<close>; the model returns
  the numerator \<open>uint w\<close>, an integer from 0 to \<open>2 ^ 32 - 1\<close>.
\<close>

record rng =
  rx :: "32 word"
  ry :: "32 word"
  rz :: "32 word"
  rw :: "32 word"

definition createSeededRandom :: "int \<Rightarrow> rng" where
  "createSeededRandom seed =
     \<lparr>rx = 123456789, ry = 362436069, rz = 521288629, rw = word_of_int seed\<rparr>"

definition random_next :: "rng \<Rightarrow> int \<times> rng" where
  "random_next g =
     (let t = rx g XOR push_bit 11 (rx g);
          w' = rw g XOR signed_drop_bit 19 (rw g) XOR (t XOR signed_drop_bit 8 t)
      in (uint w', \<lparr>rx = ry g, ry = rz g, rz = rw g, rw = w'\<rparr>))"

subsection \<open>Shuffling and picking winners (lines 117-156)\<close>

text \<open>
  The parameter \<^verbatim>\<open>random\<close> of the functions below is always the closure that
  \<^verbatim>\<open>createSeededRandom\<close> returns. It is modelled by the state of this closure: a call
  \<^verbatim>\<open>random()\<close> is \<open>random_next\<close>, which returns the number and the new state.
\<close>

text \<open>
  \<^verbatim>\<open>Math.floor(random() * (i + 1))\<close> with \<^verbatim>\<open>random() = u / 2^32\<close>. Both factors are
  doubles that hold their values exactly (\<open>u < 2 ^ 32\<close>, and \<open>i + 1\<close> is at most the length
  of an array). The product of two doubles is the double nearest to the exact product
  \<open>u * (i + 1) / 2 ^ 32\<close>, a tie going to the even significand. A division by \<open>2 ^ 32\<close>
  changes no significand, so the product is \<open>round_double (u * (i + 1)) / 2 ^ 32\<close>, where
  \<open>round_double p\<close> is the number with at most 53 significant bits nearest to the integer
  \<open>p \<ge> 0\<close>: \<open>ulp_exponent p\<close> is the number of low bits of \<open>p\<close> beyond the first 53, \<open>q\<close> the
  first 53 bits and \<open>r\<close> the bits cut off. The product is exact as long as
  \<open>u * (i + 1) < 2 ^ 53\<close>, that is for every array of at most \<open>2 ^ 21\<close> elements;
  \<^verbatim>\<open>Math.floor\<close> of it is the quotient by \<open>2 ^ 32\<close>.
\<close>

function ulp_exponent :: "int \<Rightarrow> nat" where
  "ulp_exponent p = (if p < 2 ^ 53 then 0 else Suc (ulp_exponent (p div 2)))"
  by pat_completeness auto
termination
  by (relation "measure nat") auto

declare ulp_exponent.simps [simp del]

definition round_double :: "int \<Rightarrow> int" where
  "round_double p =
     (let e = ulp_exponent p;
          q = p div 2 ^ e;
          r = p mod 2 ^ e
      in if 2 ^ e < 2 * r \<or> (2 ^ e = 2 * r \<and> odd q) then (q + 1) * 2 ^ e else q * 2 ^ e)"

definition random_index :: "int \<Rightarrow> nat \<Rightarrow> nat" where
  "random_index u i = nat (round_double (u * (int i + 1)) div 2 ^ 32)"

text \<open>
  The loop of \<^verbatim>\<open>createShuffledArray\<close>, from index \<open>i\<close> down to 1. The destructuring
  assignment reads both elements before it writes them.
\<close>

fun shuffle_loop :: "nat \<Rightarrow> 'a list \<Rightarrow> rng \<Rightarrow> 'a list \<times> rng" where
  "shuffle_loop 0 newArr g = (newArr, g)"
| "shuffle_loop (Suc k) newArr g =
     (let (u, g') = random_next g;
          i = Suc k;
          j = random_index u i
      in shuffle_loop k (newArr[i := newArr ! j, j := newArr ! i]) g')"

definition createShuffledArray :: "'a list \<Rightarrow> rng \<Rightarrow> 'a list \<times> rng" where
  "createShuffledArray array g = shuffle_loop (length array - 1) array g"

text \<open>
  \<^verbatim>\<open>arr.slice(0, seats)\<close>: a negative end counts from the end of the array, \<^verbatim>\<open>NaN\<close>
  is 0.
\<close>

definition slice0 :: "'a list \<Rightarrow> jsnum \<Rightarrow> 'a list" where
  "slice0 xs seats =
     (case seats of
        None \<Rightarrow> []
      | Some k \<Rightarrow> if k < 0 then take (nat (int (length xs) + k)) xs else take (nat k) xs)"

definition pickWinners :: "'a list \<Rightarrow> jsnum \<Rightarrow> rng \<Rightarrow> 'a list \<times> rng" where
  "pickWinners candidates seats g =
     (if num_le (of_size (length candidates)) seats then (candidates, g)
      else (let (shuffled, g') = createShuffledArray candidates g
            in (slice0 shuffled seats, g')))"

subsection \<open>Validation of the orders (lines 383-410)\<close>

text \<open>
  A row of a TSV file, as \<^verbatim>\<open>readTSV\<close> returns it: \<^verbatim>\<open>split\<close> gives at least one
  column, so a row is its first column and the list of the others. \<open>col row i\<close> is
  \<^verbatim>\<open>row[i]\<close>, \<open>None\<close> for \<^verbatim>\<open>undefined\<close>.
\<close>

type_synonym row = "string \<times> string list"

definition col :: "row \<Rightarrow> nat \<Rightarrow> string option" where
  "col r i = (if i = 0 then Some (fst r)
              else if i - 1 < length (snd r) then Some (snd r ! (i - 1)) else None)"

datatype error =
    DuplicateTheaterIds "string list"
  | DuplicatePersonIds "string list"
  | UnknownTheaterId string string
  | TypeError

text \<open>
  \<^verbatim>\<open>ids.filter((item, index) => ids.indexOf(item) !== index)\<close>: the elements that occurred
  before.
\<close>

fun duplicates_of :: "'a list \<Rightarrow> 'a list \<Rightarrow> 'a list" where
  "duplicates_of seen [] = []"
| "duplicates_of seen (x # xs) =
     (if x \<in> set seen then x # duplicates_of seen xs else duplicates_of (seen @ [x]) xs)"

text \<open>A value is truthy unless it is \<^verbatim>\<open>undefined\<close> or the empty string.\<close>

definition truthy :: "string option \<Rightarrow> bool" where
  "truthy v = (case v of None \<Rightarrow> False | Some s \<Rightarrow> s \<noteq> [])"

text \<open>The condition of line 401.\<close>

definition unknown_theater :: "string option \<Rightarrow> string list \<Rightarrow> bool" where
  "unknown_theater theaterId theaterIdSet =
     (truthy theaterId \<and> theaterId = Some [] \<and> the theaterId \<notin> set theaterIdSet)"

text \<open>The loop over \<^verbatim>\<open>i\<close> from 1 to \<^verbatim>\<open>maxOrders\<close> for one order (lines 399-407).\<close>

fun check_order :: "row \<Rightarrow> nat list \<Rightarrow> string list \<Rightarrow> error option" where
  "check_order order [] theaterIdSet = None"
| "check_order order (i # is) theaterIdSet =
     (if unknown_theater (col order i) theaterIdSet
      then Some (UnknownTheaterId (fst order) (the (col order i)))
      else check_order order is theaterIdSet)"

fun check_orders :: "row list \<Rightarrow> nat \<Rightarrow> string list \<Rightarrow> error option" where
  "check_orders [] maxOrders theaterIdSet = None"
| "check_orders (order # rest) maxOrders theaterIdSet =
     (case check_order order [1..<Suc maxOrders] theaterIdSet of
        Some e \<Rightarrow> Some e
      | None \<Rightarrow> check_orders rest maxOrders theaterIdSet)"

definition loadAndValidateOrders :: "row list \<Rightarrow> nat \<Rightarrow> string list \<Rightarrow> error + row list" where
  "loadAndValidateOrders orders maxOrders theaterIdSet =
     (let personIds = map fst orders
      in if length (new_Set personIds) \<noteq> length personIds
         then Inl (DuplicatePersonIds (new_Set (duplicates_of [] personIds)))
         else (case check_orders orders maxOrders theaterIdSet of
                 Some e \<Rightarrow> Inl e
               | None \<Rightarrow> Inr orders))"

subsection \<open>Grouping by the number of wins (lines 132-142)\<close>

text \<open>
  The lottery state: the array of person objects, the array of theater objects and the
  state of the random number generator. The field \<open>rnd\<close> stands for the closure
  \<^verbatim>\<open>random\<close>. An object reference is the index of the object in its array: the arrays
  never grow or shrink, and an assignment changes the object at an index in place.
\<close>

record lottery =
  persons :: "person list"
  theaters :: "theater list"
  rnd :: rng

text \<open>
  The \<^verbatim>\<open>Map\<close> from a count to the array of the persons with this count, as the list
  of its entries in insertion order. \<open>group_push\<close> is the body of the loop: create the
  entry if the key is new, then push.
\<close>

type_synonym groups = "(nat \<times> nat list) list"

fun group_push :: "nat \<Rightarrow> nat \<Rightarrow> groups \<Rightarrow> groups" where
  "group_push cnt p [] = [(cnt, [p])]"
| "group_push cnt p ((k, v) # m) =
     (if k = cnt then (k, v @ [p]) # m else (k, v) # group_push cnt p m)"

definition groupByAssignedCount :: "person list \<Rightarrow> nat list \<Rightarrow> groups" where
  "groupByAssignedCount ps refs =
     fold (\<lambda>p m. group_push (length (p_assigned (ps ! p))) p m) refs []"

text \<open>\<^verbatim>\<open>[...groups.keys()].sort((a, b) => a - b)\<close>\<close>

definition group_counts :: "groups \<Rightarrow> nat list" where
  "group_counts m = sort (map fst m)"

text \<open>
  \<^verbatim>\<open>groups.get(count)\<close>. The loops only look up the keys of the map, so the default is
  never returned.
\<close>

definition groups_get :: "groups \<Rightarrow> nat \<Rightarrow> nat list" where
  "groups_get m cnt = (case map_of m cnt of Some v \<Rightarrow> v | None \<Rightarrow> [])"

subsection \<open>Registration and the conflict check (lines 163-189)\<close>

text \<open>One iteration of the loop of \<^verbatim>\<open>assignWinners\<close>: person \<open>p\<close> wins theater \<open>t\<close>.\<close>

definition register :: "nat \<Rightarrow> nat \<Rightarrow> lottery \<Rightarrow> lottery" where
  "register p t s =
     (let th = theaters s ! t;
          pe = persons s ! p
      in s\<lparr>theaters := (theaters s)[t := th\<lparr>t_assigned := set_add (p_id pe) (t_assigned th)\<rparr>],
            persons := (persons s)[p := pe\<lparr>p_assigned := set_add (t_id th) (p_assigned pe)\<rparr>]\<rparr>)"

fun assignWinners :: "nat list \<Rightarrow> nat \<Rightarrow> lottery \<Rightarrow> lottery" where
  "assignWinners [] t s = s"
| "assignWinners (p # winners) t s = assignWinners winners t (register p t s)"

text \<open>
  \<^verbatim>\<open>theaterMap\<close> sends a theater id to a theater object, that is to an index of the
  array of theaters. \<^verbatim>\<open>theaterMap.get(tid)\<close> is \<^verbatim>\<open>undefined\<close> for an unknown id and
  reading its \<^verbatim>\<open>timeSlot\<close> throws a \<^verbatim>\<open>TypeError\<close>: the result \<open>None\<close>. The loop
  returns at the first conflict, before it looks at the later ids.
\<close>

type_synonym theaterMap = "string \<rightharpoonup> nat"

fun hasConflict_loop :: "string list \<Rightarrow> theater \<Rightarrow> theaterMap \<Rightarrow> theater list \<Rightarrow> bool option" where
  "hasConflict_loop [] theater tm ths = Some False"
| "hasConflict_loop (tid # tids) theater tm ths =
     (case tm tid of
        None \<Rightarrow> None
      | Some a \<Rightarrow>
          if timeSlot (ths ! a) = timeSlot theater \<or> play (ths ! a) = play theater
          then Some True
          else hasConflict_loop tids theater tm ths)"

definition hasConflict :: "person \<Rightarrow> theater \<Rightarrow> theaterMap \<Rightarrow> theater list \<Rightarrow> bool option" where
  "hasConflict pe theater tm ths = hasConflict_loop (p_assigned pe) theater tm ths"

text \<open>\<^verbatim>\<open>Array.prototype.filter\<close> with a callback that may throw.\<close>

fun filter_opt :: "('a \<Rightarrow> bool option) \<Rightarrow> 'a list \<Rightarrow> 'a list option" where
  "filter_opt f [] = Some []"
| "filter_opt f (x # xs) =
     (case f x of
        None \<Rightarrow> None
      | Some b \<Rightarrow>
          (case filter_opt f xs of
             None \<Rightarrow> None
           | Some ys \<Rightarrow> Some (if b then x # ys else ys)))"

subsection \<open>The bucket loop (lines 228-248 and 285-300)\<close>

text \<open>
  The filter of the initial lottery (lines 235-238), for the round \<open>rank\<close>, the theater at
  index \<open>t\<close> and the person at index \<open>p\<close>. \<^verbatim>\<open>&&\<close> does not evaluate \<^verbatim>\<open>hasConflict\<close>
  when one of the first two tests fails; \<^verbatim>\<open>prefs[rank]\<close> out of range is \<^verbatim>\<open>undefined\<close>,
  which is no theater id.
\<close>

definition initial_eligible :: "nat \<Rightarrow> theaterMap \<Rightarrow> nat \<Rightarrow> lottery \<Rightarrow> nat \<Rightarrow> bool option" where
  "initial_eligible rank tm t s p =
     (let theater = theaters s ! t; pe = persons s ! p
      in if rank < length (prefs pe) \<and> prefs pe ! rank = Some (t_id theater)
            \<and> t_id theater \<notin> set (p_assigned pe)
         then map_option Not (hasConflict pe theater tm (theaters s))
         else Some False)"

text \<open>The filter of the vacancy lottery (line 291).\<close>

definition vacancy_eligible :: "theaterMap \<Rightarrow> nat \<Rightarrow> lottery \<Rightarrow> nat \<Rightarrow> bool option" where
  "vacancy_eligible tm t s p =
     map_option Not (hasConflict (persons s ! p) (theaters s ! t) tm (theaters s))"

text \<open>
  The loop over the win counts is the same text in both lotteries but for the filter, the
  parameter \<open>eligible\<close> here. It stops when no seat is left, skips a bucket without eligible
  persons, and otherwise picks the winners, registers them and takes their number from
  the seats.
\<close>

fun bucket_loop ::
  "(lottery \<Rightarrow> nat \<Rightarrow> bool option) \<Rightarrow> groups \<Rightarrow> nat \<Rightarrow> nat list \<Rightarrow> jsnum \<Rightarrow> lottery
   \<Rightarrow> lottery option" where
  "bucket_loop eligible grps t [] seats s = Some s"
| "bucket_loop eligible grps t (cnt # counts) seats s =
     (if num_le seats (Some 0) then Some s
      else (case filter_opt (eligible s) (groups_get grps cnt) of
              None \<Rightarrow> None
            | Some candidates \<Rightarrow>
                if candidates = [] then bucket_loop eligible grps t counts seats s
                else (let (winners, g') = pickWinners candidates seats (rnd s);
                          s' = assignWinners winners t (s\<lparr>rnd := g'\<rparr>)
                      in bucket_loop eligible grps t counts
                           (num_sub seats (of_size (length winners))) s')))"

text \<open>\<^verbatim>\<open>theater.capacity - theater.assigned.size\<close>\<close>

definition seats_left :: "theater \<Rightarrow> jsnum" where
  "seats_left th = num_sub (capacity th) (of_size (length (t_assigned th)))"

subsection \<open>The initial lottery (lines 205-251)\<close>

text \<open>The loop over the theaters of one round (lines 224-249).\<close>

fun initial_theaters ::
  "nat \<Rightarrow> theaterMap \<Rightarrow> groups \<Rightarrow> nat list \<Rightarrow> nat list \<Rightarrow> lottery \<Rightarrow> lottery option" where
  "initial_theaters rank tm grps counts [] s = Some s"
| "initial_theaters rank tm grps counts (t # ts) s =
     (let seats = seats_left (theaters s ! t)
      in if num_le seats (Some 0) then initial_theaters rank tm grps counts ts s
         else (case bucket_loop (initial_eligible rank tm t) grps t counts seats s of
                 None \<Rightarrow> None
               | Some s' \<Rightarrow> initial_theaters rank tm grps counts ts s'))"

text \<open>\<^verbatim>\<open>theater.assigned.size >= theater.capacity\<close>\<close>

definition is_full :: "theater \<Rightarrow> bool" where
  "is_full th = num_le (capacity th) (of_size (length (t_assigned th)))"

text \<open>The body of the loop over the ranks after the test for full theaters: one round.\<close>

definition initial_round :: "nat \<Rightarrow> theaterMap \<Rightarrow> lottery \<Rightarrow> lottery option" where
  "initial_round rank tm s =
     (let grps = groupByAssignedCount (persons s) [0..<length (persons s)];
          counts = group_counts grps
      in initial_theaters rank tm grps counts [0..<length (theaters s)] s)"

fun initial_ranks :: "nat list \<Rightarrow> theaterMap \<Rightarrow> lottery \<Rightarrow> lottery option" where
  "initial_ranks [] tm s = Some s"
| "initial_ranks (rank # ranks) tm s =
     (if list_all is_full (theaters s) then Some s
      else (case initial_round rank tm s of
              None \<Rightarrow> None
            | Some s' \<Rightarrow> initial_ranks ranks tm s'))"

definition runInitialLottery :: "theaterMap \<Rightarrow> nat \<Rightarrow> lottery \<Rightarrow> lottery option" where
  "runInitialLottery tm maxOrders s = initial_ranks [0..<maxOrders] tm s"

subsection \<open>The vacancy lottery (lines 266-302)\<close>

text \<open>
  The loop over the theaters (lines 276-301); \<open>candidates\<close> are the persons of the opt-in
  list. The groups are computed again for every theater that has a seat left.
\<close>

fun vacancy_theaters :: "theaterMap \<Rightarrow> nat list \<Rightarrow> nat list \<Rightarrow> lottery \<Rightarrow> lottery option" where
  "vacancy_theaters tm candidates [] s = Some s"
| "vacancy_theaters tm candidates (t # ts) s =
     (let seats = seats_left (theaters s ! t)
      in if num_le seats (Some 0) then vacancy_theaters tm candidates ts s
         else (let grps = groupByAssignedCount (persons s) candidates;
                   counts = group_counts grps
               in case bucket_loop (vacancy_eligible tm t) grps t counts seats s of
                    None \<Rightarrow> None
                  | Some s' \<Rightarrow> vacancy_theaters tm candidates ts s'))"

text \<open>
  \<open>vacancyLines\<close> is what \<^verbatim>\<open>readLines\<close> returns for the file of the opt-in ids: its
  lines, or the empty array when the file does not exist.
\<close>

definition runVacancyLottery :: "string list \<Rightarrow> theaterMap \<Rightarrow> lottery \<Rightarrow> lottery option" where
  "runVacancyLottery vacancyLines tm s =
     (let vacancyIds = new_Set vacancyLines
      in if length vacancyIds = 0 then Some s
         else (let candidates =
                     filter (\<lambda>p. p_id (persons s ! p) \<in> set vacancyIds) [0..<length (persons s)]
               in vacancy_theaters tm candidates [0..<length (theaters s)] s))"

subsection \<open>The entry point (lines 356-374 and 416-478)\<close>

text \<open>
  A row of the file of theaters with its capacity already parsed: \<open>tr_capacity\<close> is the
  value of \<^verbatim>\<open>parseInt(cols[3], 10)\<close>.
\<close>

record theater_row =
  tr_id :: string
  tr_timeSlot :: "string option"
  tr_play :: "string option"
  tr_capacity :: jsnum

definition loadAndValidateTheaters :: "theater_row list \<Rightarrow> error + theater_row list" where
  "loadAndValidateTheaters theatersData =
     (let theaterIds = map tr_id theatersData
      in if length (new_Set theaterIds) \<noteq> length theaterIds
         then Inl (DuplicateTheaterIds (new_Set (duplicates_of [] theaterIds)))
         else Inr theatersData)"

text \<open>
  The settings \<^verbatim>\<open>maxOrders\<close>, \<^verbatim>\<open>enableVacancy\<close> and \<^verbatim>\<open>seed\<close>, for a file that gives
  a natural number, a boolean and an integer or no seed (\<open>None\<close>). The argument of
  \<^verbatim>\<open>createSeededRandom\<close> (lines 426-430) is \<^verbatim>\<open>seed || (console.log(...), defaultSeed)\<close>,
  and of the integers only 0 is falsy: \<open>resolve_seed\<close> returns the seed that is used and,
  when the default was taken, the value that the message reports. \<open>now\<close> is
  \<^verbatim>\<open>Date.now()\<close>.
\<close>

record settings =
  cfg_maxOrders :: nat
  cfg_enableVacancy :: bool
  cfg_seed :: "int option"

definition resolve_seed :: "int option \<Rightarrow> int \<Rightarrow> int \<times> int option" where
  "resolve_seed sd now =
     (let defaultSeed = now
      in case sd of
           None \<Rightarrow> (defaultSeed, Some defaultSeed)
         | Some v \<Rightarrow> if v \<noteq> 0 then (v, None) else (defaultSeed, Some defaultSeed))"

text \<open>\<^verbatim>\<open>cols[i + 1] || null\<close> for \<open>i\<close> below \<^verbatim>\<open>maxOrders\<close>\<close>

definition prefs_of :: "row \<Rightarrow> nat \<Rightarrow> string option list" where
  "prefs_of cols n =
     map (\<lambda>i. if truthy (col cols (i + 1)) then col cols (i + 1) else None) [0..<n]"

definition make_person :: "nat \<Rightarrow> row \<Rightarrow> person" where
  "make_person n cols = \<lparr>p_id = fst cols, prefs = prefs_of cols n, p_assigned = []\<rparr>"

definition make_theater :: "theater_row \<Rightarrow> theater" where
  "make_theater cols =
     \<lparr>t_id = tr_id cols, timeSlot = tr_timeSlot cols, play = tr_play cols,
      capacity = tr_capacity cols, t_assigned = []\<rparr>"

text \<open>\<^verbatim>\<open>new Map(theaters.map((theater) => [theater.id, theater]))\<close>: a later entry wins.\<close>

definition make_theaterMap :: "theater list \<Rightarrow> theaterMap" where
  "make_theaterMap ths = fold (\<lambda>t m. m(t_id (ths ! t) \<mapsto> t)) [0..<length ths] Map.empty"

text \<open>The objects and the random number generator at the start of the lotteries.\<close>

definition initial_state :: "nat \<Rightarrow> rng \<Rightarrow> theater_row list \<Rightarrow> row list \<Rightarrow> lottery" where
  "initial_state n g theatersData orders =
     \<lparr>persons = map (make_person n) orders, theaters = map make_theater theatersData, rnd = g\<rparr>"

text \<open>
  What a run gives to \<^verbatim>\<open>writeResults\<close>: the persons and the theaters with their final
  sets, and the seed that the console reports when the default was taken.
\<close>

record outcome =
  final_persons :: "person list"
  final_theaters :: "theater list"
  reported_seed :: "int option"

text \<open>
  \<^verbatim>\<open>main\<close>, from the settings, the clock, the rows of the two files and the lines of
  the opt-in list. A duplicate id stops the run before the lotteries
  (\<^verbatim>\<open>process.exit(1)\<close>), and an exception thrown by a lottery ends it with \<open>TypeError\<close>.
\<close>

definition main :: "settings \<Rightarrow> int \<Rightarrow> theater_row list \<Rightarrow> row list \<Rightarrow> string list \<Rightarrow> error + outcome" where
  "main cfg now theaterRows orderRows vacancyLines =
     (let (sd, reported) = resolve_seed (cfg_seed cfg) now;
          g = createSeededRandom sd
      in case loadAndValidateTheaters theaterRows of
           Inl e \<Rightarrow> Inl e
         | Inr theatersData \<Rightarrow>
             (case loadAndValidateOrders orderRows (cfg_maxOrders cfg) (new_Set (map tr_id theatersData)) of
                Inl e \<Rightarrow> Inl e
              | Inr orders \<Rightarrow>
                  (let s0 = initial_state (cfg_maxOrders cfg) g theatersData orders;
                       tm = make_theaterMap (theaters s0)
                   in case runInitialLottery tm (cfg_maxOrders cfg) s0 of
                        None \<Rightarrow> Inl TypeError
                      | Some s1 \<Rightarrow>
                          (case (if cfg_enableVacancy cfg then runVacancyLottery vacancyLines tm s1
                                 else Some s1) of
                             None \<Rightarrow> Inl TypeError
                           | Some s2 \<Rightarrow>
                               Inr \<lparr>final_persons = persons s2, final_theaters = theaters s2,
                                    reported_seed = reported\<rparr>))))"

subsection \<open>Invariants\<close>

text \<open>The persons that occur in the buckets of a grouping.\<close>

definition members :: "groups \<Rightarrow> nat set" where
  "members m = (\<Union>e\<in>set m. set (snd e))"

text \<open>
  What the lotteries never write: the ids and the preferences of the persons, and the ids,
  time slots, plays and capacities of the theaters.
\<close>

definition shape ::
  "lottery \<Rightarrow> (string \<times> string option list) list
     \<times> (string \<times> string option \<times> string option \<times> jsnum) list" where
  "shape s = (map (\<lambda>p. (p_id p, prefs p)) (persons s),
              map (\<lambda>t. (t_id t, timeSlot t, play t, capacity t)) (theaters s))"

text \<open>
  The theater map is well formed for the array of theaters when it sends the id of each
  theater to the index of this theater. This is the map that \<^verbatim>\<open>main\<close> builds when the
  ids do not repeat.
\<close>

definition wf_map :: "theaterMap \<Rightarrow> theater list \<Rightarrow> bool" where
  "wf_map tm ths = list_all (\<lambda>j. tm (t_id (ths ! j)) = Some j) [0..<length ths]"

text \<open>Every id in a set of wins is the id of a theater.\<close>

definition wins_known :: "lottery \<Rightarrow> bool" where
  "wins_known s =
     list_all (\<lambda>pe. list_all (\<lambda>a. a \<in> set (map t_id (theaters s))) (p_assigned pe)) (persons s)"

text \<open>
  The capacity invariant: a theater has an integer capacity and at most so many holders.
\<close>

definition within_capacity :: "theater \<Rightarrow> bool" where
  "within_capacity th = num_le (of_size (length (t_assigned th))) (capacity th)"

definition capacity_ok :: "lottery \<Rightarrow> bool" where
  "capacity_ok s = list_all within_capacity (theaters s)"

text \<open>
  The conflict invariant for one person: no two theaters with different ids among the
  wins of the person have the same time slot or the same play.
\<close>

definition conflict_free :: "theater list \<Rightarrow> person \<Rightarrow> bool" where
  "conflict_free ths pe =
     list_all (\<lambda>a. list_all (\<lambda>b.
         t_id a \<in> set (p_assigned pe) \<and> t_id b \<in> set (p_assigned pe) \<and> t_id a \<noteq> t_id b
         \<longrightarrow> timeSlot a \<noteq> timeSlot b \<and> play a \<noteq> play b) ths) ths"

definition no_conflicts :: "lottery \<Rightarrow> bool" where
  "no_conflicts s = list_all (conflict_free (theaters s)) (persons s)"

text \<open>
  Wins and holders agree: a person has won a theater exactly when the theater holds the
  person.
\<close>

definition consistent :: "lottery \<Rightarrow> bool" where
  "consistent s =
     list_all (\<lambda>pe. list_all (\<lambda>th.
         (t_id th \<in> set (p_assigned pe)) = (p_id pe \<in> set (t_assigned th))) (theaters s))
       (persons s)"

text \<open>
  The state is sound for a theater map: the map is well formed, the wins are ids of
  theaters and no person has conflicting wins.
\<close>

definition sound :: "theaterMap \<Rightarrow> lottery \<Rightarrow> bool" where
  "sound tm s = (wf_map tm (theaters s) \<and> wins_known s \<and> no_conflicts s)"

text \<open>The two filters that the bucket loop is run with, for the theater at index \<open>t\<close>.\<close>

definition is_filter :: "theaterMap \<Rightarrow> nat \<Rightarrow> (lottery \<Rightarrow> nat \<Rightarrow> bool option) \<Rightarrow> bool" where
  "is_filter tm t elig = ((\<exists>rank. elig = initial_eligible rank tm t) \<or> elig = vacancy_eligible tm t)"

text \<open>
  The state in the middle of a selection step (lines 232-246 and 289-298): the bucket
  \<open>grp\<close> has been filtered, the winners have been picked and the first \<open>k\<close> iterations of
  the loop of \<^verbatim>\<open>assignWinners\<close> have run. With \<open>k\<close> at least the number of winners
  this is the state after the step.
\<close>

definition selection_step ::
  "(lottery \<Rightarrow> nat \<Rightarrow> bool option) \<Rightarrow> nat list \<Rightarrow> nat \<Rightarrow> jsnum \<Rightarrow> nat \<Rightarrow> lottery
   \<Rightarrow> lottery option" where
  "selection_step eligible grp t seats k s =
     (case filter_opt (eligible s) grp of
        None \<Rightarrow> None
      | Some candidates \<Rightarrow>
          (let (winners, g') = pickWinners candidates seats (rnd s)
           in Some (assignWinners (take k winners) t (s\<lparr>rnd := g'\<rparr>))))"

text \<open>The ids of the persons do not repeat and the ids of the theaters do not repeat.\<close>

definition ids_unique :: "lottery \<Rightarrow> bool" where
  "ids_unique s = (distinct (map p_id (persons s)) \<and> distinct (map t_id (theaters s)))"

text \<open>
  Person \<open>i\<close> has won at most one theater between the states \<open>s\<close> and \<open>s'\<close>, and if so the
  theater of the preference at \<open>rank\<close>.
\<close>

definition won_at_most_one :: "nat \<Rightarrow> lottery \<Rightarrow> lottery \<Rightarrow> nat \<Rightarrow> bool" where
  "won_at_most_one rank s s' i =
     (let old = p_assigned (persons s ! i); new = p_assigned (persons s' ! i)
      in new = old
         \<or> (rank < length (prefs (persons s ! i))
             \<and> prefs (persons s ! i) ! rank = Some (last new)
             \<and> last new \<notin> set old \<and> new = old @ [last new]))"

text \<open>
  The state \<open>x\<close> differs from the state \<open>s\<close> only for the persons whose id is in \<open>V\<close>:
  the other persons are the same objects, and the holders of a theater are the old ones and
  ids from \<open>V\<close>.
\<close>

definition only_touches :: "string set \<Rightarrow> lottery \<Rightarrow> lottery \<Rightarrow> bool" where
  "only_touches V s x =
     (shape x = shape s
      \<and> (\<forall>i<length (persons s). p_id (persons s ! i) \<notin> V \<longrightarrow> persons x ! i = persons s ! i)
      \<and> (\<forall>j<length (theaters s).
            set (t_assigned (theaters s ! j)) \<subseteq> set (t_assigned (theaters x ! j))
            \<and> set (t_assigned (theaters x ! j)) \<subseteq> set (t_assigned (theaters s ! j)) \<union> V))"

subsection \<open>The selector on a heap of arrays\<close>

text \<open>The arrays of the heap: an array reference is an index of the list.\<close>

type_synonym 'a store = "'a list list"

text \<open>
  \<^verbatim>\<open>createShuffledArray\<close> and \<^verbatim>\<open>pickWinners\<close> with the heap made explicit. The argument
  \<open>array\<close> and the result are references: \<^verbatim>\<open>[...array]\<close> and \<^verbatim>\<open>slice\<close> allocate a new
  array at the end of the store, the swaps of the loop write to the array \<open>newArr\<close>, and
  \<^verbatim>\<open>pickWinners\<close> returns the reference \<open>candidates\<close> itself when there are enough seats.
\<close>

fun shuffle_loop_st :: "nat \<Rightarrow> nat \<Rightarrow> 'a store \<Rightarrow> rng \<Rightarrow> 'a store \<times> rng" where
  "shuffle_loop_st newArr 0 st g = (st, g)"
| "shuffle_loop_st newArr (Suc k) st g =
     (let (u, g') = random_next g;
          i = Suc k;
          j = random_index u i;
          arr = st ! newArr
      in shuffle_loop_st newArr k (st[newArr := arr[i := arr ! j, j := arr ! i]]) g')"

definition createShuffledArray_st :: "nat \<Rightarrow> 'a store \<Rightarrow> rng \<Rightarrow> nat \<times> 'a store \<times> rng" where
  "createShuffledArray_st array st g =
     (let newArr = length st;
          st1 = st @ [st ! array];
          (st2, g') = shuffle_loop_st newArr (length (st1 ! newArr) - 1) st1 g
      in (newArr, st2, g'))"

definition pickWinners_st :: "nat \<Rightarrow> jsnum \<Rightarrow> 'a store \<Rightarrow> rng \<Rightarrow> nat \<times> 'a store \<times> rng" where
  "pickWinners_st candidates seats st g =
     (if num_le (of_size (length (st ! candidates))) seats then (candidates, st, g)
      else (let (shuffled, st1, g') = createShuffledArray_st candidates st g
            in (length st1, st1 @ [slice0 (st1 ! shuffled) seats], g')))"

subsection \<open>The Fisher-Yates shuffle of the specification\<close>

text \<open>
  The shuffle that section 4.4 of the specification names, written from the algorithm as
  the literature gives it (the Fisher-Yates shuffle in Durstenfeld's form) and not from
  the code: for \<open>i\<close> from \<open>n - 1\<close> down to 1, choose an integer \<open>j\<close> with \<open>0 \<le> j \<le> i\<close> and
  exchange \<open>a[i]\<close> and \<open>a[j]\<close>. The integers chosen are an argument of the definition, the
  choice for the largest \<open>i\<close> first. \<open>exchange i j a\<close> is given by the value that the array
  has at each index after the exchange.
\<close>

definition exchange :: "nat \<Rightarrow> nat \<Rightarrow> 'a list \<Rightarrow> 'a list" where
  "exchange i j a =
     map (\<lambda>k. if k = i then a ! j else if k = j then a ! i else a ! k) [0..<length a]"

fun fisher_yates_spec :: "nat \<Rightarrow> nat list \<Rightarrow> 'a list \<Rightarrow> 'a list" where
  "fisher_yates_spec (Suc k) (j # js) a = fisher_yates_spec k js (exchange (Suc k) j a)"
| "fisher_yates_spec k js a = a"

text \<open>
  The numbers that \<open>k\<close> successive calls of \<^verbatim>\<open>random()\<close> return (their numerators, as
  \<open>random_next\<close> gives them), first call first, and the closure after these calls.
\<close>

fun calls :: "nat \<Rightarrow> rng \<Rightarrow> int list \<times> rng" where
  "calls 0 g = ([], g)"
| "calls (Suc k) g =
     (let (u, g1) = random_next g;
          (us, g2) = calls k g1
      in (u # us, g2))"

subsection \<open>A run with the seed 0\<close>

text \<open>Three persons want the one seat of one theater, and the settings give the seed 0.\<close>

definition rowsZ :: "theater_row list" where
  "rowsZ = [\<lparr>tr_id = ''R1'', tr_timeSlot = Some ''am'', tr_play = Some ''X'', tr_capacity = Some 1\<rparr>]"

definition ordersZ :: "row list" where
  "ordersZ = [(''P1'', [''R1'']), (''P2'', [''R1'']), (''P3'', [''R1''])]"

definition cfgZ :: settings where
  "cfgZ = \<lparr>cfg_maxOrders = 1, cfg_enableVacancy = False, cfg_seed = Some 0\<rparr>"

text \<open>The final holders of each theater, or the error of the run.\<close>

definition holders_of :: "error + outcome \<Rightarrow> error + string list list" where
  "holders_of res = map_sum id (\<lambda>out. map t_assigned (final_theaters out)) res"

subsection \<open>A run with three theaters and three persons\<close>

text \<open>
  R1 and R3 are in the same time slot. P1 and P2 both want the one seat of R1 first, and
  then R3; P3 wants R3 and then R2. The seed is 1, and P1 and P2 are on the opt-in list of
  the vacancy lottery.
\<close>

definition rowsW :: "theater_row list" where
  "rowsW = [\<lparr>tr_id = ''R1'', tr_timeSlot = Some ''am'', tr_play = Some ''X'', tr_capacity = Some 1\<rparr>,
            \<lparr>tr_id = ''R2'', tr_timeSlot = Some ''pm'', tr_play = Some ''Y'', tr_capacity = Some 3\<rparr>,
            \<lparr>tr_id = ''R3'', tr_timeSlot = Some ''am'', tr_play = Some ''Z'', tr_capacity = Some 2\<rparr>]"

definition ordersW :: "row list" where
  "ordersW = [(''P1'', [''R1'', ''R3'']), (''P2'', [''R1'', ''R3'']), (''P3'', [''R3'', ''R2''])]"

definition cfgW :: settings where
  "cfgW = \<lparr>cfg_maxOrders = 2, cfg_enableVacancy = True, cfg_seed = Some 1\<rparr>"

definition vacancyW :: "string list" where
  "vacancyW = [''P1'', ''P2'']"

definition stateW0 :: lottery where
  "stateW0 = initial_state 2 (createSeededRandom 1) rowsW ordersW"

definition mapW :: theaterMap where
  "mapW = make_theaterMap (theaters stateW0)"

text \<open>The state \<open>stateW0\<close> with other sets of wins and of holders and another generator.\<close>

definition with_sets :: "string list list \<Rightarrow> string list list \<Rightarrow> rng \<Rightarrow> lottery" where
  "with_sets wins holders g =
     \<lparr>persons = map2 (\<lambda>pe w. pe\<lparr>p_assigned := w\<rparr>) (persons stateW0) wins,
      theaters = map2 (\<lambda>th h. th\<lparr>t_assigned := h\<rparr>) (theaters stateW0) holders,
      rnd = g\<rparr>"

text \<open>The generator after the one shuffle of the run.\<close>

definition rngW :: rng where
  "rngW = \<lparr>rx = 362436069, ry = 521288629, rz = 1, rw = 652891761\<rparr>"

text \<open>
  The states after the first selection step (P2 wins R1), after the first round, after the
  initial lottery and after the vacancy lottery.
\<close>

definition stepW :: lottery where
  "stepW = with_sets [[], [''R1''], []] [[''P2''], [], []] rngW"

definition roundW :: lottery where
  "roundW = with_sets [[], [''R1''], [''R3'']] [[''P2''], [], [''P3'']] rngW"

definition stateW1 :: lottery where
  "stateW1 = with_sets [[''R3''], [''R1''], [''R3'', ''R2'']] [[''P2''], [''P3''], [''P3'', ''P1'']] rngW"

definition stateW2 :: lottery where
  "stateW2 = with_sets [[''R3'', ''R2''], [''R1'', ''R2''], [''R3'', ''R2'']]
               [[''P2''], [''P3'', ''P1'', ''P2''], [''P3'', ''P1'']] rngW"

definition outW :: outcome where
  "outW = \<lparr>final_persons = persons stateW2, final_theaters = theaters stateW2, reported_seed = None\<rparr>"

text \<open>
  The states of the same run after the selection step of the second round in which P1 wins
  R3 while P2, who holds R1 in the same time slot, is filtered out, and after the first
  registration of the vacancy lottery; the outcome of the run without the vacancy lottery.
\<close>

definition stepW2 :: lottery where
  "stepW2 = with_sets [[''R3''], [''R1''], [''R3'']] [[''P2''], [], [''P3'', ''P1'']] rngW"

definition stepV :: lottery where
  "stepV = with_sets [[''R3'', ''R2''], [''R1''], [''R3'', ''R2'']]
             [[''P2''], [''P3'', ''P1''], [''P3'', ''P1'']] rngW"

definition outW1 :: outcome where
  "outW1 = \<lparr>final_persons = persons stateW1, final_theaters = theaters stateW1, reported_seed = None\<rparr>"

section \<open>Properties\<close>

subsection \<open>The validation of the orders\<close>

lemma unknown_theater_False: "\<not> unknown_theater v ids"
  by (auto simp: unknown_theater_def truthy_def)

lemma check_order_None: "check_order order is ids = None"
  by (induction "is") (simp_all add: unknown_theater_False)

lemma check_orders_None: "check_orders orders maxOrders ids = None"
  by (induction orders) (simp_all add: check_order_None)

subsection \<open>Sets, the shuffle and the selector\<close>

lemma set_set_add: "set (set_add x xs) = insert x (set xs)"
  by (auto simp: set_add_def)

lemma length_set_add_le: "length (set_add x xs) \<le> Suc (length xs)"
  by (simp add: set_add_def)

lemma distinct_set_add: "distinct xs \<Longrightarrow> distinct (set_add x xs)"
  by (simp add: set_add_def)

lemma set_fold_set_add: "set (fold set_add ys xs) = set ys \<union> set xs"
  by (induction ys arbitrary: xs) (auto simp: set_set_add)

lemma length_fold_set_add: "length (fold set_add ys xs) \<le> length xs + length ys"
proof (induction ys arbitrary: xs)
  case Nil
  then show ?case by simp
next
  case (Cons y ys)
  have "length (fold set_add ys (set_add y xs)) \<le> length (set_add y xs) + length ys"
    by (rule Cons.IH)
  also have "\<dots> \<le> Suc (length xs) + length ys"
    using length_set_add_le [of y xs] by simp
  finally show ?case by simp
qed

lemma distinct_fold_set_add: "distinct xs \<Longrightarrow> distinct (fold set_add ys xs)"
  by (induction ys arbitrary: xs) (simp_all add: distinct_set_add)

lemma new_Set_length_iff: "length (new_Set xs) = length xs \<longleftrightarrow> distinct xs"
proof -
  have d: "distinct (new_Set xs)"
    by (simp add: new_Set_def distinct_fold_set_add)
  have s: "set (new_Set xs) = set xs"
    by (simp add: new_Set_def set_fold_set_add)
  have "length (new_Set xs) = card (set xs)"
    using d s distinct_card by fastforce
  then show ?thesis
    using card_distinct distinct_card by auto
qed

lemma random_next_range: "random_next g = (u, g') \<Longrightarrow> 0 \<le> u \<and> u < 2 ^ 32"
proof -
  assume "random_next g = (u, g')"
  then obtain w :: "32 word" where "u = uint w"
    by (auto simp: random_next_def Let_def)
  then show ?thesis
    using uint_lt2p [of w] by simp
qed

text \<open>
  The rounding of the product of the two doubles. \<open>round_double p\<close> has at most 53
  significant bits, is \<open>p\<close> itself when \<open>p\<close> has, is nearest to \<open>p\<close> among the multiples of
  \<open>2 ^ ulp_exponent p\<close>, and has an even significand when \<open>p\<close> is half-way between two of
  them.
\<close>

lemma ulp_exponent_0: "p < 2 ^ 53 \<Longrightarrow> ulp_exponent p = 0"
  by (simp add: ulp_exponent.simps [of p])

lemma ulp_exponent_Suc: "\<not> p < 2 ^ 53 \<Longrightarrow> ulp_exponent p = Suc (ulp_exponent (p div 2))"
  by (simp add: ulp_exponent.simps [of p])

lemma ulp_exponent_upper: "p < 2 ^ 53 * 2 ^ ulp_exponent p"
proof (induction p rule: ulp_exponent.induct)
  case (1 p)
  show ?case
  proof (cases "p < 2 ^ 53")
    case True
    then show ?thesis by (simp add: ulp_exponent_0)
  next
    case False
    then have "p div 2 < 2 ^ 53 * 2 ^ ulp_exponent (p div 2)"
      by (rule 1)
    then have "p < 2 * (2 ^ 53 * 2 ^ ulp_exponent (p div 2))"
      by linarith
    then show ?thesis
      by (simp add: ulp_exponent_Suc [OF False])
  qed
qed

lemma ulp_exponent_lower: "0 < ulp_exponent p \<Longrightarrow> 2 ^ 52 * 2 ^ ulp_exponent p \<le> p"
proof (induction p rule: ulp_exponent.induct)
  case (1 p)
  have f: "\<not> p < 2 ^ 53"
    using 1(2) ulp_exponent_0 [of p] by auto
  show ?case
  proof (cases "p div 2 < 2 ^ 53")
    case True
    then have "ulp_exponent p = 1"
      by (simp add: ulp_exponent_Suc [OF f] ulp_exponent_0)
    then show ?thesis using f by simp
  next
    case False
    then have "0 < ulp_exponent (p div 2)"
      by (simp add: ulp_exponent_Suc)
    then have "2 ^ 52 * 2 ^ ulp_exponent (p div 2) \<le> p div 2"
      using f by (intro 1(1))
    then have "2 * (2 ^ 52 * 2 ^ ulp_exponent (p div 2)) \<le> p"
      by linarith
    then show ?thesis
      by (simp add: ulp_exponent_Suc [OF f])
  qed
qed

lemma round_double_exact: "p < 2 ^ 53 \<Longrightarrow> round_double p = p"
  by (simp add: round_double_def ulp_exponent_0)

lemma round_double_grid: "2 ^ ulp_exponent p dvd round_double p"
  by (simp add: round_double_def Let_def)

lemma round_double_cases:
  "p = (p div 2 ^ ulp_exponent p) * 2 ^ ulp_exponent p + p mod 2 ^ ulp_exponent p
   \<and> 0 \<le> p mod 2 ^ ulp_exponent p \<and> p mod 2 ^ ulp_exponent p < 2 ^ ulp_exponent p
   \<and> (round_double p = (p div 2 ^ ulp_exponent p + 1) * 2 ^ ulp_exponent p
        \<and> 2 ^ ulp_exponent p \<le> 2 * (p mod 2 ^ ulp_exponent p)
        \<and> (2 ^ ulp_exponent p = 2 * (p mod 2 ^ ulp_exponent p) \<longrightarrow> odd (p div 2 ^ ulp_exponent p))
      \<or> round_double p = (p div 2 ^ ulp_exponent p) * 2 ^ ulp_exponent p
        \<and> 2 * (p mod 2 ^ ulp_exponent p) \<le> 2 ^ ulp_exponent p
        \<and> (2 ^ ulp_exponent p = 2 * (p mod 2 ^ ulp_exponent p) \<longrightarrow> even (p div 2 ^ ulp_exponent p)))"
proof -
  let ?e = "ulp_exponent p"
  let ?q = "p div 2 ^ ?e"
  let ?r = "p mod 2 ^ ?e"
  have "p = ?q * 2 ^ ?e + ?r"
    by (rule div_mult_mod_eq [symmetric])
  moreover have "0 \<le> ?r" "?r < 2 ^ ?e"
    by simp_all
  moreover have "round_double p = (?q + 1) * 2 ^ ?e \<and> 2 ^ ?e \<le> 2 * ?r \<and> (2 ^ ?e = 2 * ?r \<longrightarrow> odd ?q)
          \<or> round_double p = ?q * 2 ^ ?e \<and> 2 * ?r \<le> 2 ^ ?e \<and> (2 ^ ?e = 2 * ?r \<longrightarrow> even ?q)"
    unfolding round_double_def Let_def
    by (cases "2 ^ ?e < 2 * ?r \<or> (2 ^ ?e = 2 * ?r \<and> odd ?q)") auto
  ultimately show ?thesis
    by simp
qed

lemma round_double_near: "2 * \<bar>round_double p - p\<bar> \<le> 2 ^ ulp_exponent p"
proof -
  have aux: "2 * \<bar>R - x\<bar> \<le> m"
    if "x = a + r" "0 \<le> r" "r < m" "R = a + m \<and> m \<le> 2 * r \<or> R = a \<and> 2 * r \<le> m"
    for R x a r m :: int
    using that by auto
  let ?e = "ulp_exponent p"
  let ?q = "p div 2 ^ ?e"
  note c = round_double_cases [of p]
  have s: "(?q + 1) * 2 ^ ?e = ?q * 2 ^ ?e + 2 ^ ?e"
    by (simp add: algebra_simps)
  show ?thesis
    by (rule aux [of p "?q * 2 ^ ?e" "p mod 2 ^ ?e"]) (use c s in auto)
qed

lemma round_double_even:
  "2 * \<bar>round_double p - p\<bar> = 2 ^ ulp_exponent p \<Longrightarrow> even (round_double p div 2 ^ ulp_exponent p)"
proof -
  have aux: "m = 2 * r"
    if "x = a + r" "0 \<le> r" "r < m" "R = a + m \<and> m \<le> 2 * r \<or> R = a \<and> 2 * r \<le> m"
      "2 * \<bar>R - x\<bar> = m"
    for R x a r m :: int
    using that by arith
  let ?e = "ulp_exponent p"
  let ?q = "p div 2 ^ ?e"
  assume a: "2 * \<bar>round_double p - p\<bar> = 2 ^ ?e"
  note c = round_double_cases [of p]
  have s: "(?q + 1) * 2 ^ ?e = ?q * 2 ^ ?e + 2 ^ ?e"
    by (simp add: algebra_simps)
  have "2 ^ ?e = 2 * (p mod 2 ^ ?e)"
    by (rule aux [of p "?q * 2 ^ ?e" _ _ "round_double p"]) (use c s a in auto)
  then have "round_double p = (?q + 1) * 2 ^ ?e \<and> odd ?q \<or> round_double p = ?q * 2 ^ ?e \<and> even ?q"
    using c by auto
  then show ?thesis
    by auto
qed

lemma round_double_53_bits:
  "0 \<le> p \<Longrightarrow> 0 \<le> round_double p div 2 ^ ulp_exponent p \<and> round_double p div 2 ^ ulp_exponent p \<le> 2 ^ 53"
proof -
  let ?e = "ulp_exponent p"
  let ?q = "p div 2 ^ ?e"
  assume p: "0 \<le> p"
  note c = round_double_cases [of p]
  have "?q * 2 ^ ?e < 2 ^ 53 * 2 ^ ?e"
    using ulp_exponent_upper [of p] c by linarith
  then have q: "?q < 2 ^ 53"
    by simp
  have q0: "0 \<le> ?q"
    using p by (simp add: pos_imp_zdiv_nonneg_iff)
  show ?thesis
    using q q0 by (auto simp: round_double_def Let_def)
qed

lemma random_index_le: "0 \<le> u \<Longrightarrow> u < 2 ^ 32 \<Longrightarrow> random_index u i \<le> i"
proof -
  have aux: "R < M" if "E \<le> n" "2 * \<bar>R - x\<bar> \<le> E" "0 < E" "x + n \<le> M" for R x E n M :: int
    using that by arith
  assume u: "0 \<le> u" "u < 2 ^ 32"
  let ?p = "u * (int i + 1)"
  let ?e = "ulp_exponent ?p"
  have "u + 1 \<le> 2 ^ 32"
    using u by simp
  then have "(u + 1) * (int i + 1) \<le> 2 ^ 32 * (int i + 1)"
    by (rule mult_right_mono) simp
  then have m: "?p + (int i + 1) \<le> 2 ^ 32 * (int i + 1)"
    by (simp add: algebra_simps)
  have "round_double ?p < 2 ^ 32 * (int i + 1)"
  proof (cases "?e = 0")
    case True
    then have "?p < 2 ^ 53"
      using ulp_exponent_upper [of ?p] by simp
    then have "round_double ?p = ?p"
      by (rule round_double_exact)
    then show ?thesis
      using m by linarith
  next
    case False
    then have "2 ^ 52 * 2 ^ ?e \<le> ?p"
      by (intro ulp_exponent_lower) simp
    then have "2 ^ 32 * (2 ^ 20 * 2 ^ ?e) < 2 ^ 32 * (int i + 1)"
      using m by simp
    then have "2 ^ 20 * (2::int) ^ ?e < int i + 1"
      by (simp only: mult_less_cancel_left_pos zero_less_power zero_less_numeral)
    moreover have "(2::int) ^ ?e \<le> 2 ^ 20 * 2 ^ ?e"
      by simp
    ultimately have "(2::int) ^ ?e \<le> int i + 1"
      by linarith
    moreover have "2 * \<bar>round_double ?p - ?p\<bar> \<le> 2 ^ ?e"
      by (rule round_double_near)
    moreover have "(0::int) < 2 ^ ?e"
      by simp
    ultimately show ?thesis
      using m by (intro aux [where R = "round_double ?p" and x = ?p and E = "2 ^ ?e" and n = "int i + 1"])
  qed
  then have "round_double ?p div 2 ^ 32 < int i + 1"
    by simp
  then show ?thesis
    by (simp add: random_index_def)
qed

text \<open>
  As long as the product is exact the index is the floor of the real product
  \<open>random() * (i + 1)\<close>.
\<close>

lemma random_index_floor:
  "0 \<le> u \<Longrightarrow> u * (int i + 1) < 2 ^ 53 \<Longrightarrow>
   random_index u i = nat \<lfloor>real_of_int u / 4294967296 * (real i + 1)\<rfloor>"
proof -
  assume a: "0 \<le> u" "u * (int i + 1) < 2 ^ 53"
  have "real_of_int u / 4294967296 * (real i + 1) = real_of_int (u * (int i + 1)) / real_of_int 4294967296"
    by simp
  then have "\<lfloor>real_of_int u / 4294967296 * (real i + 1)\<rfloor> = u * (int i + 1) div 4294967296"
    by (simp only: floor_divide_of_int_eq)
  then show ?thesis
    using a by (simp add: random_index_def round_double_exact)
qed

text \<open>
  At the first number of the seed 1494408803 and the index 4196910 the exact product
  \<open>2146992945 * 4196911 = 9010738307792895\<close> needs 54 bits and lies half-way between two
  doubles; it goes to the even one, \<open>9010738307792896 = 2097976 * 2 ^ 32\<close>, where the
  quotient of the exact product by \<open>2 ^ 32\<close> is 2097975.
\<close>

lemma random_index_rounds: "random_index 2146992945 4196910 = 2097976"
  by (simp add: random_index_def round_double_def ulp_exponent.simps Let_def)

lemma shuffle_loop_mset: "k < length xs \<Longrightarrow> mset (fst (shuffle_loop k xs g)) = mset xs"
proof (induction k arbitrary: xs g)
  case 0
  then show ?case by simp
next
  case (Suc k)
  obtain u g' where r: "random_next g = (u, g')"
    by (cases "random_next g")
  let ?j = "random_index u (Suc k)"
  have j: "?j \<le> Suc k"
    using random_next_range [OF r] by (simp add: random_index_le)
  let ?ys = "xs[Suc k := xs ! ?j, ?j := xs ! Suc k]"
  have "mset ?ys = mset xs"
    using Suc.prems j by (simp add: mset_swap)
  moreover have "mset (fst (shuffle_loop k ?ys g')) = mset ?ys"
    using Suc.prems by (intro Suc.IH) simp
  ultimately show ?case
    using r by (simp add: Let_def)
qed

lemma createShuffledArray_mset: "mset (fst (createShuffledArray xs g)) = mset xs"
proof (cases xs)
  case Nil
  then show ?thesis by (simp add: createShuffledArray_def)
next
  case (Cons a list)
  then show ?thesis
    by (simp add: createShuffledArray_def shuffle_loop_mset)
qed

lemma set_slice0: "set (slice0 xs seats) \<subseteq> set xs"
  by (auto simp: slice0_def split: option.splits dest: in_set_takeD)

lemma pickWinners_subset: "set (fst (pickWinners cands seats g)) \<subseteq> set cands"
proof (cases "num_le (of_size (length cands)) seats")
  case True
  then show ?thesis by (simp add: pickWinners_def)
next
  case False
  have "set (fst (createShuffledArray cands g)) = set cands"
    using createShuffledArray_mset [of cands g] by (metis set_mset_mset)
  then show ?thesis
    using False set_slice0 [of "fst (createShuffledArray cands g)" seats]
    by (simp add: pickWinners_def split_beta)
qed

lemma pickWinners_length:
  "0 \<le> k \<Longrightarrow> int (length (fst (pickWinners cands (Some k) g))) \<le> k"
  by (auto simp: pickWinners_def num_le_def of_size_def slice0_def split_beta)

lemma pickWinners_all:
  "int (length cands) \<le> k \<Longrightarrow> pickWinners cands (Some k) g = (cands, g)"
  by (simp add: pickWinners_def num_le_def of_size_def)

subsection \<open>Filters and groups\<close>

lemma filter_opt_Some: "filter_opt f xs = Some ys \<Longrightarrow> ys = filter (\<lambda>x. f x = Some True) xs"
  by (induction xs arbitrary: ys) (auto split: option.splits)

lemma filter_opt_total: "\<forall>x\<in>set xs. f x \<noteq> None \<Longrightarrow> \<exists>ys. filter_opt f xs = Some ys"
  by (induction xs) (auto split: option.splits)

lemma members_Nil: "members [] = {}"
  by (simp add: members_def)

lemma members_group_push: "members (group_push c p m) = insert p (members m)"
  by (induction c p m rule: group_push.induct) (auto simp: members_def)

lemma members_fold_group_push:
  "members (fold (\<lambda>p m. group_push (f p) p m) refs m) = set refs \<union> members m"
  by (induction refs arbitrary: m) (auto simp: members_group_push)

lemma groups_get_subset_members: "set (groups_get m c) \<subseteq> members m"
  by (auto simp: groups_get_def members_def split: option.splits dest!: map_of_SomeD [OF sym])

lemma groups_get_subset: "set (groups_get (groupByAssignedCount ps refs) c) \<subseteq> set refs"
  using groups_get_subset_members [of "groupByAssignedCount ps refs" c]
  by (simp add: groupByAssignedCount_def members_fold_group_push members_Nil)

subsection \<open>What the lotteries never write\<close>

lemma map_update_same: "f v = f (xs ! i) \<Longrightarrow> map f (xs[i := v]) = map f xs"
  by (cases "i < length xs") (simp_all add: map_update list_update_same_conv list_update_beyond)

lemma shape_register: "shape (register p t s) = shape s"
  by (simp add: shape_def register_def Let_def map_update_same)

lemma shape_rnd: "shape (s\<lparr>rnd := g\<rparr>) = shape s"
  by (simp add: shape_def)

lemma shape_assignWinners: "shape (assignWinners ws t s) = shape s"
  by (induction ws arbitrary: s) (simp_all add: shape_register)

lemma shape_persons:
  assumes "shape s' = shape s"
  shows "length (persons s') = length (persons s)"
    and "i < length (persons s) \<Longrightarrow> p_id (persons s' ! i) = p_id (persons s ! i)"
    and "i < length (persons s) \<Longrightarrow> prefs (persons s' ! i) = prefs (persons s ! i)"
proof -
  have m: "map (\<lambda>p. (p_id p, prefs p)) (persons s') = map (\<lambda>p. (p_id p, prefs p)) (persons s)"
    using assms by (simp add: shape_def)
  show l: "length (persons s') = length (persons s)"
    using m by (rule map_eq_imp_length_eq)
  assume i: "i < length (persons s)"
  have "map (\<lambda>p. (p_id p, prefs p)) (persons s') ! i = map (\<lambda>p. (p_id p, prefs p)) (persons s) ! i"
    using m by simp
  then have "(p_id (persons s' ! i), prefs (persons s' ! i)) = (p_id (persons s ! i), prefs (persons s ! i))"
    using i l by simp
  then show "p_id (persons s' ! i) = p_id (persons s ! i)"
    and "prefs (persons s' ! i) = prefs (persons s ! i)"
    by simp_all
qed

lemma shape_theaters:
  assumes "shape s' = shape s"
  shows "length (theaters s') = length (theaters s)"
    and "j < length (theaters s) \<Longrightarrow> t_id (theaters s' ! j) = t_id (theaters s ! j)"
    and "j < length (theaters s) \<Longrightarrow> timeSlot (theaters s' ! j) = timeSlot (theaters s ! j)"
    and "j < length (theaters s) \<Longrightarrow> play (theaters s' ! j) = play (theaters s ! j)"
    and "j < length (theaters s) \<Longrightarrow> capacity (theaters s' ! j) = capacity (theaters s ! j)"
proof -
  let ?f = "\<lambda>t. (t_id t, timeSlot t, play t, capacity t)"
  have m: "map ?f (theaters s') = map ?f (theaters s)"
    using assms by (simp add: shape_def)
  show l: "length (theaters s') = length (theaters s)"
    using m by (rule map_eq_imp_length_eq)
  assume j: "j < length (theaters s)"
  have "map ?f (theaters s') ! j = map ?f (theaters s) ! j"
    using m by simp
  then have "?f (theaters s' ! j) = ?f (theaters s ! j)"
    using j l by simp
  then show "t_id (theaters s' ! j) = t_id (theaters s ! j)"
    and "timeSlot (theaters s' ! j) = timeSlot (theaters s ! j)"
    and "play (theaters s' ! j) = play (theaters s ! j)"
    and "capacity (theaters s' ! j) = capacity (theaters s ! j)"
    by simp_all
qed

lemma set_add_idem: "set_add x (set_add x xs) = set_add x xs"
  by (simp add: set_add_def)

lemma assignWinners_person:
  assumes "t < length (theaters s)" and "i < length (persons s)"
  shows "persons (assignWinners ws t s) ! i =
         (if i \<in> set ws
          then (persons s ! i)\<lparr>p_assigned := set_add (t_id (theaters s ! t)) (p_assigned (persons s ! i))\<rparr>
          else persons s ! i)"
  using assms
proof (induction ws arbitrary: s)
  case Nil
  then show ?case by simp
next
  case (Cons p ws)
  let ?s = "register p t s"
  have sh: "shape ?s = shape s" by (rule shape_register)
  have t: "t < length (theaters ?s)" and i: "i < length (persons ?s)"
    using Cons.prems shape_theaters(1) [OF sh] shape_persons(1) [OF sh] by simp_all
  have tid: "t_id (theaters ?s ! t) = t_id (theaters s ! t)"
    using Cons.prems shape_theaters(2) [OF sh] by simp
  have pi: "persons ?s ! i =
      (if i = p then (persons s ! i)\<lparr>p_assigned := set_add (t_id (theaters s ! t)) (p_assigned (persons s ! i))\<rparr>
       else persons s ! i)"
    using Cons.prems by (simp add: register_def Let_def)
  show ?case
    using Cons.IH [OF t i] tid pi by (auto simp: set_add_idem)
qed

lemma assignWinners_theater:
  assumes "t < length (theaters s)" and "\<forall>p\<in>set ws. p < length (persons s)"
  shows "theaters (assignWinners ws t s) =
         (theaters s)[t := (theaters s ! t)
            \<lparr>t_assigned := fold set_add (map (\<lambda>p. p_id (persons s ! p)) ws) (t_assigned (theaters s ! t))\<rparr>]"
  using assms
proof (induction ws arbitrary: s)
  case Nil
  then show ?case by simp
next
  case (Cons p ws)
  let ?s = "register p t s"
  have sh: "shape ?s = shape s" by (rule shape_register)
  have t: "t < length (theaters ?s)"
    using Cons.prems shape_theaters(1) [OF sh] by simp
  have ws: "\<forall>q\<in>set ws. q < length (persons ?s)"
    using Cons.prems shape_persons(1) [OF sh] by simp
  have ids: "map (\<lambda>q. p_id (persons ?s ! q)) ws = map (\<lambda>q. p_id (persons s ! q)) ws"
    using Cons.prems shape_persons(2) [OF sh] by simp
  have th: "theaters ?s = (theaters s)[t := (theaters s ! t)
      \<lparr>t_assigned := set_add (p_id (persons s ! p)) (t_assigned (theaters s ! t))\<rparr>]"
    by (simp add: register_def Let_def)
  show ?case
    using Cons.IH [OF t ws] Cons.prems(1) by (simp add: ids th)
qed

lemma rnd_assignWinners: "rnd (assignWinners ws t s) = rnd s"
  by (induction ws arbitrary: s) (simp_all add: register_def Let_def)

subsection \<open>Induction rules for the loops\<close>

lemma bucket_loop_rule:
  assumes "bucket_loop elig grps t counts seats s = Some s'"
    and "P seats s"
    and "\<And>seats s cnt cands winners g'.
           P seats s \<Longrightarrow> \<not> num_le seats (Some 0) \<Longrightarrow> cnt \<in> set counts \<Longrightarrow>
           filter_opt (elig s) (groups_get grps cnt) = Some cands \<Longrightarrow> cands \<noteq> [] \<Longrightarrow>
           pickWinners cands seats (rnd s) = (winners, g') \<Longrightarrow>
           P (num_sub seats (of_size (length winners))) (assignWinners winners t (s\<lparr>rnd := g'\<rparr>))"
  shows "\<exists>seats'. P seats' s'"
  using assms
proof (induction counts arbitrary: seats s)
  case Nil
  then show ?case by auto
next
  case (Cons cnt counts)
  have step: "P (num_sub k (of_size (length winners))) (assignWinners winners t (x\<lparr>rnd := g'\<rparr>))"
    if "P k x" "\<not> num_le k (Some 0)" "c \<in> set counts"
      "filter_opt (elig x) (groups_get grps c) = Some cands" "cands \<noteq> []"
      "pickWinners cands k (rnd x) = (winners, g')"
    for k x c cands winners g'
    using that by (intro Cons.prems(3) [of k x c cands winners g']) simp_all
  show ?case
  proof (cases "num_le seats (Some 0)")
    case True
    then show ?thesis using Cons.prems(1,2) by auto
  next
    case False
    then obtain cands where c: "filter_opt (elig s) (groups_get grps cnt) = Some cands"
      using Cons.prems(1) by (auto split: option.splits)
    show ?thesis
    proof (cases "cands = []")
      case True
      then have "bucket_loop elig grps t counts seats s = Some s'"
        using Cons.prems(1) False c by simp
      then show ?thesis
        using Cons.prems(2) step by (rule Cons.IH)
    next
      case ne: False
      obtain winners g' where w: "pickWinners cands seats (rnd s) = (winners, g')"
        by (cases "pickWinners cands seats (rnd s)")
      let ?s = "assignWinners winners t (s\<lparr>rnd := g'\<rparr>)"
      let ?seats = "num_sub seats (of_size (length winners))"
      have run: "bucket_loop elig grps t counts ?seats ?s = Some s'"
        using Cons.prems(1) False c ne w by simp
      have "P ?seats ?s"
        using Cons.prems(2) False c ne w by (intro Cons.prems(3) [of seats s cnt cands]) auto
      with run show ?thesis
        using step by (rule Cons.IH)
    qed
  qed
qed

lemma initial_theaters_rule:
  assumes "initial_theaters rank tm grps counts ts s = Some s'"
    and "Q s"
    and "\<And>t s s'. t \<in> set ts \<Longrightarrow> Q s \<Longrightarrow> \<not> num_le (seats_left (theaters s ! t)) (Some 0) \<Longrightarrow>
           bucket_loop (initial_eligible rank tm t) grps t counts (seats_left (theaters s ! t)) s = Some s'
           \<Longrightarrow> Q s'"
  shows "Q s'"
  using assms
proof (induction ts arbitrary: s)
  case Nil
  then show ?case by simp
next
  case (Cons t ts)
  show ?case
  proof (cases "num_le (seats_left (theaters s ! t)) (Some 0)")
    case True
    then have "initial_theaters rank tm grps counts ts s = Some s'"
      using Cons.prems(1) by simp
    then show ?thesis
      using Cons.prems(2,3) by (intro Cons.IH [of s]) auto
  next
    case False
    then obtain s1 where
      b: "bucket_loop (initial_eligible rank tm t) grps t counts (seats_left (theaters s ! t)) s = Some s1"
      and r: "initial_theaters rank tm grps counts ts s1 = Some s'"
      using Cons.prems(1) by (auto simp: Let_def split: option.splits)
    have "Q s1"
      using Cons.prems(2) False b by (intro Cons.prems(3) [of t s s1]) auto
    then show ?thesis
      using r Cons.prems(3) by (intro Cons.IH [of s1]) auto
  qed
qed

lemma vacancy_theaters_rule:
  assumes "vacancy_theaters tm cs ts s = Some s'"
    and "Q s"
    and "\<And>t s s'. t \<in> set ts \<Longrightarrow> Q s \<Longrightarrow> \<not> num_le (seats_left (theaters s ! t)) (Some 0) \<Longrightarrow>
           bucket_loop (vacancy_eligible tm t) (groupByAssignedCount (persons s) cs) t
             (group_counts (groupByAssignedCount (persons s) cs)) (seats_left (theaters s ! t)) s = Some s'
           \<Longrightarrow> Q s'"
  shows "Q s'"
  using assms
proof (induction ts arbitrary: s)
  case Nil
  then show ?case by simp
next
  case (Cons t ts)
  show ?case
  proof (cases "num_le (seats_left (theaters s ! t)) (Some 0)")
    case True
    then have "vacancy_theaters tm cs ts s = Some s'"
      using Cons.prems(1) by simp
    then show ?thesis
      using Cons.prems(2,3) by (intro Cons.IH [of s]) auto
  next
    case False
    then obtain s1 where
      b: "bucket_loop (vacancy_eligible tm t) (groupByAssignedCount (persons s) cs) t
             (group_counts (groupByAssignedCount (persons s) cs)) (seats_left (theaters s ! t)) s = Some s1"
      and r: "vacancy_theaters tm cs ts s1 = Some s'"
      using Cons.prems(1) by (auto simp: Let_def split: option.splits)
    have "Q s1"
      using Cons.prems(2) False b by (intro Cons.prems(3) [of t s s1]) auto
    then show ?thesis
      using r Cons.prems(3) by (intro Cons.IH [of s1]) auto
  qed
qed

lemma initial_ranks_rule:
  assumes "initial_ranks ranks tm s = Some s'"
    and "Q s"
    and "\<And>rank s s'. rank \<in> set ranks \<Longrightarrow> Q s \<Longrightarrow> initial_round rank tm s = Some s' \<Longrightarrow> Q s'"
  shows "Q s'"
  using assms
proof (induction ranks arbitrary: s)
  case Nil
  then show ?case by simp
next
  case (Cons rank ranks)
  show ?case
  proof (cases "list_all is_full (theaters s)")
    case True
    then show ?thesis using Cons.prems(1,2) by simp
  next
    case False
    then obtain s1 where b: "initial_round rank tm s = Some s1"
      and r: "initial_ranks ranks tm s1 = Some s'"
      using Cons.prems(1) by (auto split: option.splits)
    have "Q s1"
      using Cons.prems(2) b by (intro Cons.prems(3) [of rank s s1]) auto
    then show ?thesis
      using r Cons.prems(3) by (intro Cons.IH [of s1]) auto
  qed
qed

lemma shape_bucket_loop:
  assumes "bucket_loop elig grps t counts seats s = Some s'"
  shows "shape s' = shape s"
proof -
  have "\<exists>seats'. (\<lambda>(k::jsnum) x. shape x = shape s) seats' s'"
    using assms
  proof (rule bucket_loop_rule)
    show "shape s = shape s" by simp
  qed (simp add: shape_assignWinners shape_rnd)
  then show ?thesis by simp
qed

lemma shape_initial_theaters:
  assumes "initial_theaters rank tm grps counts ts s = Some s'"
  shows "shape s' = shape s"
  using assms
proof (rule initial_theaters_rule [where Q = "\<lambda>x. shape x = shape s"])
  show "shape s = shape s" by simp
qed (simp add: shape_bucket_loop)

lemma shape_vacancy_theaters:
  assumes "vacancy_theaters tm cs ts s = Some s'"
  shows "shape s' = shape s"
  using assms
proof (rule vacancy_theaters_rule [where Q = "\<lambda>x. shape x = shape s"])
  show "shape s = shape s" by simp
qed (simp add: shape_bucket_loop)

lemma shape_initial_round: "initial_round rank tm s = Some s' \<Longrightarrow> shape s' = shape s"
  by (simp add: initial_round_def Let_def shape_initial_theaters)

lemma shape_initial_ranks:
  assumes "initial_ranks ranks tm s = Some s'"
  shows "shape s' = shape s"
  using assms
proof (rule initial_ranks_rule [where Q = "\<lambda>x. shape x = shape s"])
  show "shape s = shape s" by simp
qed (simp add: shape_initial_round)

lemma shape_runInitialLottery: "runInitialLottery tm n s = Some s' \<Longrightarrow> shape s' = shape s"
  by (simp add: runInitialLottery_def shape_initial_ranks)

lemma shape_runVacancyLottery: "runVacancyLottery vl tm s = Some s' \<Longrightarrow> shape s' = shape s"
  by (auto simp: runVacancyLottery_def Let_def shape_vacancy_theaters split: if_splits)

subsection \<open>Soundness of the state\<close>

lemma wf_map_iff: "wf_map tm ths \<longleftrightarrow> (\<forall>j<length ths. tm (t_id (ths ! j)) = Some j)"
  by (auto simp: wf_map_def list_all_iff)

lemma wins_known_iff:
  "wins_known s \<longleftrightarrow>
     (\<forall>i<length (persons s). set (p_assigned (persons s ! i)) \<subseteq> set (map t_id (theaters s)))"
proof -
  have inner: "list_all (\<lambda>a. a \<in> S) ys \<longleftrightarrow> set ys \<subseteq> S" for ys :: "string list" and S
    by (auto simp: list_all_iff)
  show ?thesis
    by (simp only: wins_known_def inner) (simp add: list_all_length)
qed

lemma capacity_ok_iff:
  "capacity_ok s \<longleftrightarrow> (\<forall>j<length (theaters s). within_capacity (theaters s ! j))"
  by (simp add: capacity_ok_def list_all_length)

lemma conflict_free_iff:
  "conflict_free ths pe \<longleftrightarrow>
     (\<forall>i<length ths. \<forall>j<length ths.
        t_id (ths ! i) \<in> set (p_assigned pe) \<and> t_id (ths ! j) \<in> set (p_assigned pe)
        \<and> t_id (ths ! i) \<noteq> t_id (ths ! j)
        \<longrightarrow> timeSlot (ths ! i) \<noteq> timeSlot (ths ! j) \<and> play (ths ! i) \<noteq> play (ths ! j))"
  by (simp add: conflict_free_def list_all_length)

lemma no_conflicts_iff:
  "no_conflicts s \<longleftrightarrow> (\<forall>i<length (persons s). conflict_free (theaters s) (persons s ! i))"
  by (simp add: no_conflicts_def list_all_length)

lemma consistent_iff:
  "consistent s \<longleftrightarrow>
     (\<forall>i<length (persons s). \<forall>j<length (theaters s).
        (t_id (theaters s ! j) \<in> set (p_assigned (persons s ! i)))
        = (p_id (persons s ! i) \<in> set (t_assigned (theaters s ! j))))"
  by (simp add: consistent_def list_all_length)

lemma shape_t_ids: "shape s' = shape s \<Longrightarrow> map t_id (theaters s') = map t_id (theaters s)"
proof -
  assume "shape s' = shape s"
  then have "map fst (map (\<lambda>t. (t_id t, timeSlot t, play t, capacity t)) (theaters s'))
      = map fst (map (\<lambda>t. (t_id t, timeSlot t, play t, capacity t)) (theaters s))"
    by (simp add: shape_def)
  then show ?thesis by (simp add: comp_def)
qed

lemma shape_p_ids: "shape s' = shape s \<Longrightarrow> map p_id (persons s') = map p_id (persons s)"
proof -
  assume "shape s' = shape s"
  then have "map fst (map (\<lambda>p. (p_id p, prefs p)) (persons s'))
      = map fst (map (\<lambda>p. (p_id p, prefs p)) (persons s))"
    by (simp add: shape_def)
  then show ?thesis by (simp add: comp_def)
qed

lemma shape_assign: "shape (assignWinners ws t (s\<lparr>rnd := g\<rparr>)) = shape s"
  by (simp add: shape_assignWinners shape_rnd)

lemma wf_map_shape: "shape s' = shape s \<Longrightarrow> wf_map tm (theaters s') = wf_map tm (theaters s)"
  using shape_theaters(1,2) [of s' s] by (auto simp: wf_map_iff)

text \<open>The wins of a person after a registration of winners.\<close>

lemma wins_assign:
  assumes "t < length (theaters s)" and "i < length (persons s)"
  shows "p_assigned (persons (assignWinners ws t (s\<lparr>rnd := g\<rparr>)) ! i) =
         (if i \<in> set ws then set_add (t_id (theaters s ! t)) (p_assigned (persons s ! i))
          else p_assigned (persons s ! i))"
  using assignWinners_person [of t "s\<lparr>rnd := g\<rparr>" i ws] assms by simp

lemma holders_assign:
  assumes "t < length (theaters s)" and "\<forall>p\<in>set ws. p < length (persons s)"
    and "j < length (theaters s)"
  shows "t_assigned (theaters (assignWinners ws t (s\<lparr>rnd := g\<rparr>)) ! j) =
         (if j = t
          then fold set_add (map (\<lambda>p. p_id (persons s ! p)) ws) (t_assigned (theaters s ! t))
          else t_assigned (theaters s ! j))"
  using assignWinners_theater [of t "s\<lparr>rnd := g\<rparr>" ws] assms by simp

lemma wins_known_assign:
  assumes "wins_known s" and "t < length (theaters s)"
  shows "wins_known (assignWinners ws t (s\<lparr>rnd := g\<rparr>))"
proof -
  let ?s = "assignWinners ws t (s\<lparr>rnd := g\<rparr>)"
  have sh: "shape ?s = shape s" by (rule shape_assign)
  have tid: "t_id (theaters s ! t) \<in> set (map t_id (theaters s))"
    using assms(2) by simp
  show ?thesis
    unfolding wins_known_iff shape_t_ids [OF sh] shape_persons(1) [OF sh]
  proof (intro allI impI)
    fix i assume i: "i < length (persons s)"
    have "set (p_assigned (persons s ! i)) \<subseteq> set (map t_id (theaters s))"
      using assms(1) i by (simp add: wins_known_iff)
    then show "set (p_assigned (persons ?s ! i)) \<subseteq> set (map t_id (theaters s))"
      using tid by (simp add: wins_assign [OF assms(2) i] set_set_add)
  qed
qed

lemma hasConflict_loop_False:
  "hasConflict_loop wins th tm ths = Some False \<Longrightarrow> a \<in> set wins \<Longrightarrow>
   \<exists>i. tm a = Some i \<and> timeSlot (ths ! i) \<noteq> timeSlot th \<and> play (ths ! i) \<noteq> play th"
  by (induction wins) (auto split: option.splits if_splits)

lemma hasConflict_loop_total:
  "\<forall>a\<in>set wins. tm a \<noteq> None \<Longrightarrow> hasConflict_loop wins th tm ths \<noteq> None"
  by (induction wins) (auto split: option.splits)

lemma conflict_free_shape:
  assumes "shape s' = shape s"
  shows "conflict_free (theaters s') pe = conflict_free (theaters s) pe"
  using shape_theaters [OF assms] by (simp add: conflict_free_iff)

lemma conflict_free_add:
  assumes cf: "conflict_free ths pe"
    and wf: "wf_map tm ths"
    and t: "t < length ths"
    and nc: "hasConflict pe (ths ! t) tm ths = Some False"
  shows "conflict_free ths (pe\<lparr>p_assigned := set_add (t_id (ths ! t)) (p_assigned pe)\<rparr>)"
proof -
  have new: "timeSlot (ths ! i) \<noteq> timeSlot (ths ! t) \<and> play (ths ! i) \<noteq> play (ths ! t)"
    if il: "i < length ths" and iw: "t_id (ths ! i) \<in> set (p_assigned pe)" for i
  proof -
    obtain k where k: "tm (t_id (ths ! i)) = Some k"
      "timeSlot (ths ! k) \<noteq> timeSlot (ths ! t) \<and> play (ths ! k) \<noteq> play (ths ! t)"
      using hasConflict_loop_False [OF nc [unfolded hasConflict_def] iw] by auto
    have "k = i" using wf il k(1) by (simp add: wf_map_iff)
    then show ?thesis using k(2) by simp
  qed
  show ?thesis
    unfolding conflict_free_iff
  proof (intro allI impI)
    fix i j
    assume i: "i < length ths" and j: "j < length ths"
      and h: "t_id (ths ! i) \<in> set (p_assigned (pe\<lparr>p_assigned := set_add (t_id (ths ! t)) (p_assigned pe)\<rparr>))
        \<and> t_id (ths ! j) \<in> set (p_assigned (pe\<lparr>p_assigned := set_add (t_id (ths ! t)) (p_assigned pe)\<rparr>))
        \<and> t_id (ths ! i) \<noteq> t_id (ths ! j)"
    have wi: "t_id (ths ! i) = t_id (ths ! t) \<or> t_id (ths ! i) \<in> set (p_assigned pe)"
      and wj: "t_id (ths ! j) = t_id (ths ! t) \<or> t_id (ths ! j) \<in> set (p_assigned pe)"
      and ne: "t_id (ths ! i) \<noteq> t_id (ths ! j)"
      using h by (auto simp: set_set_add)
    have same: "k = t" if "k < length ths" "t_id (ths ! k) = t_id (ths ! t)" for k
      using wf t that by (simp add: wf_map_iff) (metis option.inject)
    consider "t_id (ths ! i) \<in> set (p_assigned pe)" "t_id (ths ! j) \<in> set (p_assigned pe)"
      | "i = t" "t_id (ths ! j) \<in> set (p_assigned pe)"
      | "j = t" "t_id (ths ! i) \<in> set (p_assigned pe)"
      using wi wj ne same i j by metis
    then show "timeSlot (ths ! i) \<noteq> timeSlot (ths ! j) \<and> play (ths ! i) \<noteq> play (ths ! j)"
    proof cases
      case 1
      then show ?thesis using cf i j ne by (simp add: conflict_free_iff)
    next
      case 2
      then show ?thesis using new [OF j] by auto
    next
      case 3
      then show ?thesis using new [OF i] by auto
    qed
  qed
qed

lemma no_conflicts_assign:
  assumes nc: "no_conflicts s"
    and wf: "wf_map tm (theaters s)"
    and t: "t < length (theaters s)"
    and ws: "\<forall>p\<in>set ws. hasConflict (persons s ! p) (theaters s ! t) tm (theaters s) = Some False"
  shows "no_conflicts (assignWinners ws t (s\<lparr>rnd := g\<rparr>))"
proof -
  let ?s = "assignWinners ws t (s\<lparr>rnd := g\<rparr>)"
  have sh: "shape ?s = shape s" by (rule shape_assign)
  show ?thesis
    unfolding no_conflicts_iff shape_persons(1) [OF sh] conflict_free_shape [OF sh]
  proof (intro allI impI)
    fix i assume i: "i < length (persons s)"
    have cf: "conflict_free (theaters s) (persons s ! i)"
      using nc i by (simp add: no_conflicts_iff)
    have p: "persons ?s ! i =
        (if i \<in> set ws
         then (persons s ! i)\<lparr>p_assigned := set_add (t_id (theaters s ! t)) (p_assigned (persons s ! i))\<rparr>
         else persons s ! i)"
      using assignWinners_person [of t "s\<lparr>rnd := g\<rparr>" i ws] t i by simp
    show "conflict_free (theaters s) (persons ?s ! i)"
    proof (cases "i \<in> set ws")
      case True
      then show ?thesis
        using conflict_free_add [OF cf wf t] ws p by simp
    next
      case False
      then show ?thesis using cf p by simp
    qed
  qed
qed

lemma initial_eligible_True:
  assumes "initial_eligible rank tm t s p = Some True"
  shows "rank < length (prefs (persons s ! p))"
    and "prefs (persons s ! p) ! rank = Some (t_id (theaters s ! t))"
    and "t_id (theaters s ! t) \<notin> set (p_assigned (persons s ! p))"
    and "hasConflict (persons s ! p) (theaters s ! t) tm (theaters s) = Some False"
  using assms by (auto simp: initial_eligible_def Let_def split: if_splits)

lemma vacancy_eligible_True:
  "vacancy_eligible tm t s p = Some True \<Longrightarrow>
   hasConflict (persons s ! p) (theaters s ! t) tm (theaters s) = Some False"
  by (auto simp: vacancy_eligible_def)

lemma is_filter_True:
  "is_filter tm t elig \<Longrightarrow> elig s p = Some True \<Longrightarrow>
   hasConflict (persons s ! p) (theaters s ! t) tm (theaters s) = Some False"
  by (auto simp: is_filter_def initial_eligible_True(4) vacancy_eligible_True)

lemma is_filter_total:
  "is_filter tm t elig \<Longrightarrow> hasConflict (persons s ! p) (theaters s ! t) tm (theaters s) \<noteq> None
   \<Longrightarrow> elig s p \<noteq> None"
  by (auto simp: is_filter_def initial_eligible_def vacancy_eligible_def Let_def)

text \<open>What a selection step knows about its winners.\<close>

lemma winners_facts:
  assumes "filter_opt f grp = Some cands"
    and "pickWinners cands seats g = (winners, g')"
    and "p \<in> set winners"
  shows "p \<in> set grp" and "f p = Some True"
proof -
  have "p \<in> set cands"
    using pickWinners_subset [of cands seats g] assms(2,3) by auto
  then show "p \<in> set grp" and "f p = Some True"
    using filter_opt_Some [OF assms(1)] by simp_all
qed

lemma sound_assign:
  assumes "sound tm s" and "t < length (theaters s)"
    and "\<forall>p\<in>set ws. hasConflict (persons s ! p) (theaters s ! t) tm (theaters s) = Some False"
  shows "sound tm (assignWinners ws t (s\<lparr>rnd := g\<rparr>))"
proof -
  have "wf_map tm (theaters (assignWinners ws t (s\<lparr>rnd := g\<rparr>))) = wf_map tm (theaters s)"
    by (rule wf_map_shape) (rule shape_assign)
  moreover have "wins_known (assignWinners ws t (s\<lparr>rnd := g\<rparr>))"
    using assms(1,2) by (simp add: sound_def wins_known_assign)
  moreover have "no_conflicts (assignWinners ws t (s\<lparr>rnd := g\<rparr>))"
    using assms by (intro no_conflicts_assign [where tm = tm]) (simp_all add: sound_def)
  ultimately show ?thesis
    using assms(1) by (simp add: sound_def)
qed

lemma sound_bucket_loop:
  assumes run: "bucket_loop elig grps t counts seats s = Some s'"
    and f: "is_filter tm t elig"
    and t: "t < length (theaters s)"
    and s: "sound tm s"
  shows "sound tm s'"
proof -
  let ?P = "\<lambda>(k::jsnum) x. sound tm x \<and> shape x = shape s"
  have "\<exists>k. ?P k s'"
    using run
  proof (rule bucket_loop_rule [where P = ?P])
    show "sound tm s \<and> shape s = shape s" using s by simp
  next
    fix seats cnt cands winners g' and x :: lottery
    assume x: "sound tm x \<and> shape x = shape s"
      and c: "filter_opt (elig x) (groups_get grps cnt) = Some cands"
      and w: "pickWinners cands seats (rnd x) = (winners, g')"
    have tx: "t < length (theaters x)"
      using t x shape_theaters(1) [of x s] by simp
    have "hasConflict (persons x ! p) (theaters x ! t) tm (theaters x) = Some False"
      if "p \<in> set winners" for p
      by (rule is_filter_True [OF f]) (rule winners_facts(2) [OF c w that])
    then have "\<forall>p\<in>set winners. hasConflict (persons x ! p) (theaters x ! t) tm (theaters x) = Some False"
      by simp
    then show "sound tm (assignWinners winners t (x\<lparr>rnd := g'\<rparr>))
        \<and> shape (assignWinners winners t (x\<lparr>rnd := g'\<rparr>)) = shape s"
      using x tx by (simp add: sound_assign shape_assign)
  qed
  then show ?thesis by simp
qed

text \<open>
  A property of the state that every run of the bucket loop keeps is kept by both
  lotteries.
\<close>

lemma initial_round_lift:
  assumes run: "initial_round rank tm s = Some s'"
    and q: "Q s"
    and step: "\<And>elig grps t counts x x'. Q x \<Longrightarrow> shape x = shape s \<Longrightarrow> t < length (theaters x) \<Longrightarrow>
        is_filter tm t elig \<Longrightarrow> members grps \<subseteq> {..<length (persons x)} \<Longrightarrow>
        bucket_loop elig grps t counts (seats_left (theaters x ! t)) x = Some x' \<Longrightarrow> Q x'"
  shows "Q s'"
proof -
  let ?grps = "groupByAssignedCount (persons s) [0..<length (persons s)]"
  have m: "members ?grps \<subseteq> {..<length (persons s)}"
    by (auto simp: groupByAssignedCount_def members_fold_group_push members_Nil)
  have r: "initial_theaters rank tm ?grps (group_counts ?grps) [0..<length (theaters s)] s = Some s'"
    using run by (simp add: initial_round_def Let_def)
  have "Q s' \<and> shape s' = shape s"
    using r
  proof (rule initial_theaters_rule [where Q = "\<lambda>x. Q x \<and> shape x = shape s"])
    show "Q s \<and> shape s = shape s" using q by simp
  next
    fix t and x x' :: lottery
    assume t: "t \<in> set [0..<length (theaters s)]"
      and x: "Q x \<and> shape x = shape s"
      and b: "bucket_loop (initial_eligible rank tm t) ?grps t (group_counts ?grps)
                (seats_left (theaters x ! t)) x = Some x'"
    have tx: "t < length (theaters x)"
      using t x shape_theaters(1) [of x s] by simp
    have mx: "members ?grps \<subseteq> {..<length (persons x)}"
      using m x shape_persons(1) [of x s] by simp
    have f: "is_filter tm t (initial_eligible rank tm t)"
      by (auto simp: is_filter_def)
    have "Q x" and "shape x = shape s"
      using x by simp_all
    then have "Q x'"
      using tx f mx b by (rule step)
    then show "Q x' \<and> shape x' = shape s"
      using shape_bucket_loop [OF b] x by simp
  qed
  then show ?thesis by simp
qed

lemma runInitialLottery_lift:
  assumes run: "runInitialLottery tm n s = Some s'"
    and q: "Q s"
    and step: "\<And>elig grps t counts x x'. Q x \<Longrightarrow> shape x = shape s \<Longrightarrow> t < length (theaters x) \<Longrightarrow>
        is_filter tm t elig \<Longrightarrow> members grps \<subseteq> {..<length (persons x)} \<Longrightarrow>
        bucket_loop elig grps t counts (seats_left (theaters x ! t)) x = Some x' \<Longrightarrow> Q x'"
  shows "Q s'"
proof -
  have r: "initial_ranks [0..<n] tm s = Some s'"
    using run by (simp add: runInitialLottery_def)
  have "Q s' \<and> shape s' = shape s"
    using r
  proof (rule initial_ranks_rule [where Q = "\<lambda>x. Q x \<and> shape x = shape s"])
    show "Q s \<and> shape s = shape s" using q by simp
  next
    fix rank and x x' :: lottery
    assume x: "Q x \<and> shape x = shape s"
      and b: "initial_round rank tm x = Some x'"
    have "Q x'"
      using b
    proof (rule initial_round_lift [where Q = Q])
      show "Q x" using x by simp
    next
      fix elig grps t counts and y y' :: lottery
      assume y: "Q y" "shape y = shape x" and r: "t < length (theaters y)" "is_filter tm t elig"
        "members grps \<subseteq> {..<length (persons y)}"
        "bucket_loop elig grps t counts (seats_left (theaters y ! t)) y = Some y'"
      have "shape y = shape s" using y(2) x by simp
      with y(1) show "Q y'"
        using r by (rule step)
    qed
    then show "Q x' \<and> shape x' = shape s"
      using shape_initial_round [OF b] x by simp
  qed
  then show ?thesis by simp
qed

lemma runVacancyLottery_lift:
  assumes run: "runVacancyLottery vl tm s = Some s'"
    and q: "Q s"
    and step: "\<And>elig grps t counts x x'. Q x \<Longrightarrow> shape x = shape s \<Longrightarrow> t < length (theaters x) \<Longrightarrow>
        is_filter tm t elig \<Longrightarrow> members grps \<subseteq> {..<length (persons x)} \<Longrightarrow>
        bucket_loop elig grps t counts (seats_left (theaters x ! t)) x = Some x' \<Longrightarrow> Q x'"
  shows "Q s'"
proof (cases "length (new_Set vl) = 0")
  case True
  then show ?thesis using run q by (simp add: runVacancyLottery_def)
next
  case False
  let ?cs = "filter (\<lambda>p. p_id (persons s ! p) \<in> set (new_Set vl)) [0..<length (persons s)]"
  have r: "vacancy_theaters tm ?cs [0..<length (theaters s)] s = Some s'"
    using run False by (simp add: runVacancyLottery_def Let_def)
  have "Q s' \<and> shape s' = shape s"
    using r
  proof (rule vacancy_theaters_rule [where Q = "\<lambda>x. Q x \<and> shape x = shape s"])
    show "Q s \<and> shape s = shape s" using q by simp
  next
    fix t and x x' :: lottery
    let ?grps = "groupByAssignedCount (persons x) ?cs"
    assume t: "t \<in> set [0..<length (theaters s)]"
      and x: "Q x \<and> shape x = shape s"
      and b: "bucket_loop (vacancy_eligible tm t) ?grps t (group_counts ?grps)
                (seats_left (theaters x ! t)) x = Some x'"
    have tx: "t < length (theaters x)"
      using t x shape_theaters(1) [of x s] by simp
    have mx: "members ?grps \<subseteq> {..<length (persons x)}"
      using x shape_persons(1) [of x s]
      by (auto simp: groupByAssignedCount_def members_fold_group_push members_Nil)
    have f: "is_filter tm t (vacancy_eligible tm t)"
      by (simp add: is_filter_def)
    have "Q x" and "shape x = shape s"
      using x by simp_all
    then have "Q x'"
      using tx f mx b by (rule step)
    then show "Q x' \<and> shape x' = shape s"
      using shape_bucket_loop [OF b] x by simp
  qed
  then show ?thesis by simp
qed

subsection \<open>The lotteries never throw\<close>

lemma hasConflict_total:
  assumes "sound tm s" and "p < length (persons s)"
  shows "hasConflict (persons s ! p) th tm (theaters s) \<noteq> None"
proof -
  have "tm a \<noteq> None" if a: "a \<in> set (p_assigned (persons s ! p))" for a
  proof -
    have "a \<in> set (map t_id (theaters s))"
      using assms a by (auto simp: sound_def wins_known_iff)
    then obtain j where "j < length (theaters s)" "a = t_id (theaters s ! j)"
      by (auto simp: in_set_conv_nth)
    then show ?thesis
      using assms(1) by (simp add: sound_def wf_map_iff)
  qed
  then show ?thesis
    by (simp add: hasConflict_def hasConflict_loop_total)
qed

lemma filter_total:
  assumes "is_filter tm t elig" and "sound tm s" and "set grp \<subseteq> {..<length (persons s)}"
  shows "\<exists>cands. filter_opt (elig s) grp = Some cands"
proof (rule filter_opt_total, rule ballI)
  fix p assume "p \<in> set grp"
  then have "p < length (persons s)" using assms(3) by auto
  then show "elig s p \<noteq> None"
    by (intro is_filter_total [OF assms(1)] hasConflict_total [OF assms(2)])
qed

lemma bucket_loop_total:
  assumes "is_filter tm t elig" and "members grps \<subseteq> {..<length (persons s)}"
    and "t < length (theaters s)" and "sound tm s"
  shows "\<exists>s'. bucket_loop elig grps t counts seats s = Some s'"
  using assms
proof (induction counts arbitrary: seats s)
  case Nil
  then show ?case by simp
next
  case (Cons cnt counts)
  have grp: "set (groups_get grps cnt) \<subseteq> {..<length (persons s)}"
    using groups_get_subset_members [of grps cnt] Cons.prems(2) by simp
  obtain cands where c: "filter_opt (elig s) (groups_get grps cnt) = Some cands"
    using filter_total [OF Cons.prems(1) Cons.prems(4) grp] by auto
  obtain winners g' where w: "pickWinners cands seats (rnd s) = (winners, g')"
    by (cases "pickWinners cands seats (rnd s)")
  let ?s = "assignWinners winners t (s\<lparr>rnd := g'\<rparr>)"
  have sh: "shape ?s = shape s" by (rule shape_assign)
  have nc: "\<forall>p\<in>set winners. hasConflict (persons s ! p) (theaters s ! t) tm (theaters s) = Some False"
    using is_filter_True [OF Cons.prems(1)] winners_facts(2) [OF c w] by blast
  have s1: "sound tm ?s"
    using Cons.prems(4,3) nc by (rule sound_assign)
  have m1: "members grps \<subseteq> {..<length (persons ?s)}"
    using Cons.prems(2) shape_persons(1) [OF sh] by simp
  have t1: "t < length (theaters ?s)"
    using Cons.prems(3) shape_theaters(1) [OF sh] by simp
  have a: "\<exists>s'. bucket_loop elig grps t counts k ?s = Some s'" for k
    using Cons.prems(1) m1 t1 s1 by (rule Cons.IH)
  have b: "\<exists>s'. bucket_loop elig grps t counts seats s = Some s'"
    using Cons.prems by (intro Cons.IH) simp_all
  show ?case
    using a b c w by (simp add: Let_def)
qed

lemma members_groupBy: "members (groupByAssignedCount ps refs) = set refs"
  by (simp add: groupByAssignedCount_def members_fold_group_push members_Nil)

lemma initial_theaters_total:
  assumes "members grps \<subseteq> {..<length (persons s)}"
    and "set ts \<subseteq> {..<length (theaters s)}" and "sound tm s"
  shows "\<exists>s'. initial_theaters rank tm grps counts ts s = Some s'"
  using assms
proof (induction ts arbitrary: s)
  case Nil
  then show ?case by simp
next
  case (Cons t ts)
  have f: "is_filter tm t (initial_eligible rank tm t)"
    by (auto simp: is_filter_def)
  have t: "t < length (theaters s)" using Cons.prems(2) by simp
  obtain s1 where b: "bucket_loop (initial_eligible rank tm t) grps t counts
      (seats_left (theaters s ! t)) s = Some s1"
    using bucket_loop_total [OF f Cons.prems(1) t Cons.prems(3)] by blast
  have sh: "shape s1 = shape s" by (rule shape_bucket_loop [OF b])
  have "sound tm s1"
    using b f t Cons.prems(3) by (rule sound_bucket_loop)
  moreover have "members grps \<subseteq> {..<length (persons s1)}"
    using Cons.prems(1) shape_persons(1) [OF sh] by simp
  moreover have "set ts \<subseteq> {..<length (theaters s1)}"
    using Cons.prems(2) shape_theaters(1) [OF sh] by simp
  ultimately have a: "\<exists>s'. initial_theaters rank tm grps counts ts s1 = Some s'"
    by (intro Cons.IH)
  have c: "\<exists>s'. initial_theaters rank tm grps counts ts s = Some s'"
    using Cons.prems by (intro Cons.IH) simp_all
  show ?case
    using a b c by (simp add: Let_def)
qed

lemma initial_round_total:
  assumes "sound tm s"
  shows "\<exists>s'. initial_round rank tm s = Some s'"
  unfolding initial_round_def Let_def
  using assms by (intro initial_theaters_total) (auto simp: members_groupBy)

lemma sound_initial_round:
  assumes "initial_round rank tm s = Some s'" and "sound tm s"
  shows "sound tm s'"
  using assms
proof (rule initial_round_lift [where Q = "sound tm"])
  fix elig grps t counts and x x' :: lottery
  assume "sound tm x" "t < length (theaters x)" "is_filter tm t elig"
    "bucket_loop elig grps t counts (seats_left (theaters x ! t)) x = Some x'"
  then show "sound tm x'"
    using sound_bucket_loop by blast
qed

lemma initial_ranks_total:
  assumes "sound tm s"
  shows "\<exists>s'. initial_ranks ranks tm s = Some s'"
  using assms
proof (induction ranks arbitrary: s)
  case Nil
  then show ?case by simp
next
  case (Cons rank ranks)
  obtain s1 where r: "initial_round rank tm s = Some s1"
    using initial_round_total [OF Cons.prems] by blast
  have "sound tm s1"
    using r Cons.prems by (rule sound_initial_round)
  then have "\<exists>s'. initial_ranks ranks tm s1 = Some s'"
    by (rule Cons.IH)
  then show ?case
    using r by simp
qed

lemma runInitialLottery_total: "sound tm s \<Longrightarrow> \<exists>s'. runInitialLottery tm n s = Some s'"
  by (simp add: runInitialLottery_def initial_ranks_total)

lemma sound_runInitialLottery:
  assumes "runInitialLottery tm n s = Some s'" and "sound tm s"
  shows "sound tm s'"
  using assms
proof (rule runInitialLottery_lift [where Q = "sound tm"])
  fix elig grps t counts and x x' :: lottery
  assume "sound tm x" "t < length (theaters x)" "is_filter tm t elig"
    "bucket_loop elig grps t counts (seats_left (theaters x ! t)) x = Some x'"
  then show "sound tm x'"
    using sound_bucket_loop by blast
qed

lemma sound_runVacancyLottery:
  assumes "runVacancyLottery vl tm s = Some s'" and "sound tm s"
  shows "sound tm s'"
  using assms
proof (rule runVacancyLottery_lift [where Q = "sound tm"])
  fix elig grps t counts and x x' :: lottery
  assume "sound tm x" "t < length (theaters x)" "is_filter tm t elig"
    "bucket_loop elig grps t counts (seats_left (theaters x ! t)) x = Some x'"
  then show "sound tm x'"
    using sound_bucket_loop by blast
qed

lemma vacancy_theaters_total:
  assumes "set cs \<subseteq> {..<length (persons s)}"
    and "set ts \<subseteq> {..<length (theaters s)}" and "sound tm s"
  shows "\<exists>s'. vacancy_theaters tm cs ts s = Some s'"
  using assms
proof (induction ts arbitrary: s)
  case Nil
  then show ?case by simp
next
  case (Cons t ts)
  let ?grps = "groupByAssignedCount (persons s) cs"
  have f: "is_filter tm t (vacancy_eligible tm t)"
    by (simp add: is_filter_def)
  have t: "t < length (theaters s)" using Cons.prems(2) by simp
  have m: "members ?grps \<subseteq> {..<length (persons s)}"
    using Cons.prems(1) by (simp add: members_groupBy)
  obtain s1 where b: "bucket_loop (vacancy_eligible tm t) ?grps t (group_counts ?grps)
      (seats_left (theaters s ! t)) s = Some s1"
    using bucket_loop_total [OF f m t Cons.prems(3)] by blast
  have sh: "shape s1 = shape s" by (rule shape_bucket_loop [OF b])
  have "sound tm s1"
    using b f t Cons.prems(3) by (rule sound_bucket_loop)
  moreover have "set cs \<subseteq> {..<length (persons s1)}"
    using Cons.prems(1) shape_persons(1) [OF sh] by simp
  moreover have "set ts \<subseteq> {..<length (theaters s1)}"
    using Cons.prems(2) shape_theaters(1) [OF sh] by simp
  ultimately have a: "\<exists>s'. vacancy_theaters tm cs ts s1 = Some s'"
    by (intro Cons.IH)
  have c: "\<exists>s'. vacancy_theaters tm cs ts s = Some s'"
    using Cons.prems by (intro Cons.IH) simp_all
  show ?case
    using a b c by (simp add: Let_def)
qed

lemma runVacancyLottery_total:
  assumes "sound tm s"
  shows "\<exists>s'. runVacancyLottery vl tm s = Some s'"
  unfolding runVacancyLottery_def Let_def
  using assms by (auto intro!: vacancy_theaters_total)

subsection \<open>The state that main builds\<close>

lemma make_theaterMap_fold:
  assumes "distinct (map t_id ths)" and "n \<le> length ths" and "j < n"
  shows "fold (\<lambda>t m. m(t_id (ths ! t) \<mapsto> t)) [0..<n] m0 (t_id (ths ! j)) = Some j"
  using assms(2,3)
proof (induction n)
  case 0
  then show ?case by simp
next
  case (Suc n)
  show ?case
  proof (cases "j = n")
    case True
    then show ?thesis by simp
  next
    case False
    then have j: "j < n" using Suc.prems by simp
    have "map t_id ths ! j = map t_id ths ! n \<longleftrightarrow> j = n"
      using assms(1) Suc.prems by (intro nth_eq_iff_index_eq) simp_all
    then have "t_id (ths ! j) \<noteq> t_id (ths ! n)"
      using Suc.prems False by simp
    then show ?thesis
      using Suc.IH j Suc.prems by simp
  qed
qed

lemma wf_make_theaterMap: "distinct (map t_id ths) \<Longrightarrow> wf_map (make_theaterMap ths) ths"
  by (simp add: wf_map_iff make_theaterMap_def make_theaterMap_fold)

lemma t_ids_initial_state: "map t_id (theaters (initial_state n g trs ors)) = map tr_id trs"
  by (simp add: initial_state_def make_theater_def comp_def)

lemma p_ids_initial_state: "map p_id (persons (initial_state n g trs ors)) = map fst ors"
  by (simp add: initial_state_def make_person_def comp_def)

lemma wins_initial_state:
  "i < length (persons (initial_state n g trs ors)) \<Longrightarrow>
   p_assigned (persons (initial_state n g trs ors) ! i) = []"
  by (simp add: initial_state_def make_person_def)

lemma holders_initial_state:
  "j < length (theaters (initial_state n g trs ors)) \<Longrightarrow>
   t_assigned (theaters (initial_state n g trs ors) ! j) = []"
  by (simp add: initial_state_def make_theater_def)

lemma sound_initial_state:
  assumes "distinct (map tr_id trs)"
  shows "sound (make_theaterMap (theaters (initial_state n g trs ors))) (initial_state n g trs ors)"
proof -
  let ?s = "initial_state n g trs ors"
  have "wf_map (make_theaterMap (theaters ?s)) (theaters ?s)"
    using assms by (intro wf_make_theaterMap) (simp add: t_ids_initial_state)
  moreover have "wins_known ?s"
    unfolding wins_known_iff by (simp add: wins_initial_state)
  moreover have "no_conflicts ?s"
    unfolding no_conflicts_iff conflict_free_iff by (simp add: wins_initial_state)
  ultimately show ?thesis by (simp add: sound_def)
qed

lemma consistent_initial_state: "consistent (initial_state n g trs ors)"
  unfolding consistent_iff by (simp add: wins_initial_state holders_initial_state)

lemma loadAndValidateTheaters_Inr:
  "loadAndValidateTheaters trs = Inr x \<longleftrightarrow> distinct (map tr_id trs) \<and> x = trs"
  by (auto simp: loadAndValidateTheaters_def Let_def new_Set_length_iff)

lemma loadAndValidateOrders_Inr:
  "loadAndValidateOrders ors n ids = Inr x \<longleftrightarrow> distinct (map fst ors) \<and> x = ors"
  by (auto simp: loadAndValidateOrders_def Let_def new_Set_length_iff check_orders_None)

text \<open>What a successful run has done.\<close>

lemma main_Inr:
  assumes "main cfg now trs ors vl = Inr out"
  obtains s1 s2 where "distinct (map tr_id trs)" and "distinct (map fst ors)"
    and "runInitialLottery
           (make_theaterMap (theaters (initial_state (cfg_maxOrders cfg)
              (createSeededRandom (fst (resolve_seed (cfg_seed cfg) now))) trs ors)))
           (cfg_maxOrders cfg)
           (initial_state (cfg_maxOrders cfg)
              (createSeededRandom (fst (resolve_seed (cfg_seed cfg) now))) trs ors) = Some s1"
    and "(if cfg_enableVacancy cfg
          then runVacancyLottery vl
            (make_theaterMap (theaters (initial_state (cfg_maxOrders cfg)
              (createSeededRandom (fst (resolve_seed (cfg_seed cfg) now))) trs ors))) s1
          else Some s1) = Some s2"
    and "final_persons out = persons s2" and "final_theaters out = theaters s2"
proof -
  obtain sd rep where r: "resolve_seed (cfg_seed cfg) now = (sd, rep)"
    by (cases "resolve_seed (cfg_seed cfg) now")
  have d1: "distinct (map tr_id trs)"
    using assms r
    by (cases "loadAndValidateTheaters trs") (auto simp: main_def loadAndValidateTheaters_Inr)
  then have l1: "loadAndValidateTheaters trs = Inr trs"
    by (simp add: loadAndValidateTheaters_Inr)
  have d2: "distinct (map fst ors)"
    using assms r l1
    by (cases "loadAndValidateOrders ors (cfg_maxOrders cfg) (new_Set (map tr_id trs))")
      (auto simp: main_def loadAndValidateOrders_Inr)
  then have l2: "loadAndValidateOrders ors (cfg_maxOrders cfg) (new_Set (map tr_id trs)) = Inr ors"
    by (simp add: loadAndValidateOrders_Inr)
  show ?thesis
    using assms r l1 l2 d1 d2
    by (auto simp: main_def Let_def split: option.splits if_splits intro!: that)
qed

lemma main_no_TypeError: "main cfg now trs ors vl \<noteq> Inl TypeError"
proof -
  obtain sd rep where r: "resolve_seed (cfg_seed cfg) now = (sd, rep)"
    by (cases "resolve_seed (cfg_seed cfg) now")
  let ?s0 = "initial_state (cfg_maxOrders cfg) (createSeededRandom sd) trs ors"
  let ?tm = "make_theaterMap (theaters ?s0)"
  show ?thesis
  proof (cases "distinct (map tr_id trs) \<and> distinct (map fst ors)")
    case True
    then have l1: "loadAndValidateTheaters trs = Inr trs"
      and l2: "loadAndValidateOrders ors (cfg_maxOrders cfg) (new_Set (map tr_id trs)) = Inr ors"
      by (simp_all add: loadAndValidateTheaters_Inr loadAndValidateOrders_Inr)
    have s0: "sound ?tm ?s0"
      using True by (simp add: sound_initial_state)
    then obtain s1 where s1: "runInitialLottery ?tm (cfg_maxOrders cfg) ?s0 = Some s1"
      using runInitialLottery_total by blast
    then have "sound ?tm s1"
      using s0 by (rule sound_runInitialLottery)
    then obtain s2 where s2: "runVacancyLottery vl ?tm s1 = Some s2"
      using runVacancyLottery_total by blast
    show ?thesis
      using r l1 l2 s1 s2 by (simp add: main_def Let_def)
  next
    case False
    then show ?thesis
      using r
      by (auto simp: main_def Let_def loadAndValidateTheaters_def loadAndValidateOrders_def
          new_Set_length_iff check_orders_None)
  qed
qed

subsection \<open>Selection steps, consistency and capacity\<close>

lemma selection_stepE:
  assumes "selection_step elig grp t seats k s = Some s'"
  obtains cands winners g' where "filter_opt (elig s) grp = Some cands"
    and "pickWinners cands seats (rnd s) = (winners, g')"
    and "s' = assignWinners (take k winners) t (s\<lparr>rnd := g'\<rparr>)"
  using assms by (auto simp: selection_step_def split: option.splits prod.splits)

text \<open>The bucket loop runs one selection step to its end for each bucket that has candidates.\<close>

lemma bucket_loop_selection:
  assumes "\<not> num_le seats (Some 0)"
    and "filter_opt (elig s) (groups_get grps cnt) = Some cands" and "cands \<noteq> []"
    and "pickWinners cands seats (rnd s) = (winners, g')"
  shows "selection_step elig (groups_get grps cnt) t seats (length winners) s
           = Some (assignWinners winners t (s\<lparr>rnd := g'\<rparr>))"
    and "bucket_loop elig grps t (cnt # counts) seats s =
           bucket_loop elig grps t counts (num_sub seats (of_size (length winners)))
             (assignWinners winners t (s\<lparr>rnd := g'\<rparr>))"
  using assms by (simp_all add: selection_step_def)

lemma ids_unique_shape: "shape s' = shape s \<Longrightarrow> ids_unique s' = ids_unique s"
  using shape_t_ids [of s' s] shape_p_ids [of s' s] by (simp add: ids_unique_def)

lemma distinct_nth_eq:
  "distinct (map f xs) \<Longrightarrow> i < length xs \<Longrightarrow> j < length xs \<Longrightarrow> f (xs ! i) = f (xs ! j) \<longleftrightarrow> i = j"
  using nth_eq_iff_index_eq [of "map f xs" i j] by simp

lemma consistent_assign:
  assumes c: "consistent s" and u: "ids_unique s"
    and t: "t < length (theaters s)" and ws: "\<forall>p\<in>set ws. p < length (persons s)"
  shows "consistent (assignWinners ws t (s\<lparr>rnd := g\<rparr>))"
proof -
  let ?s = "assignWinners ws t (s\<lparr>rnd := g\<rparr>)"
  have sh: "shape ?s = shape s" by (rule shape_assign)
  have dp: "distinct (map p_id (persons s))" and dt: "distinct (map t_id (theaters s))"
    using u by (simp_all add: ids_unique_def)
  show ?thesis
    unfolding consistent_iff shape_persons(1) [OF sh] shape_theaters(1) [OF sh]
  proof (intro allI impI)
    fix i j assume i: "i < length (persons s)" and j: "j < length (theaters s)"
    have old: "(t_id (theaters s ! j) \<in> set (p_assigned (persons s ! i)))
        = (p_id (persons s ! i) \<in> set (t_assigned (theaters s ! j)))"
      using c i j by (simp add: consistent_iff)
    have pid: "p_id (persons ?s ! i) = p_id (persons s ! i)"
      using shape_persons(2) [OF sh i] .
    have tid: "t_id (theaters ?s ! j) = t_id (theaters s ! j)"
      using shape_theaters(2) [OF sh j] .
    have w: "set (p_assigned (persons ?s ! i)) =
        (if i \<in> set ws then insert (t_id (theaters s ! t)) (set (p_assigned (persons s ! i)))
         else set (p_assigned (persons s ! i)))"
      by (simp add: wins_assign [OF t i] set_set_add)
    have h: "set (t_assigned (theaters ?s ! j)) =
        (if j = t then (\<lambda>p. p_id (persons s ! p)) ` set ws \<union> set (t_assigned (theaters s ! t))
         else set (t_assigned (theaters s ! j)))"
      by (simp add: holders_assign [OF t ws j] set_fold_set_add)
    have a: "t_id (theaters s ! j) = t_id (theaters s ! t) \<longleftrightarrow> j = t"
      using dt j t by (rule distinct_nth_eq)
    have b: "p_id (persons s ! i) \<in> (\<lambda>p. p_id (persons s ! p)) ` set ws \<longleftrightarrow> i \<in> set ws"
    proof
      assume "p_id (persons s ! i) \<in> (\<lambda>p. p_id (persons s ! p)) ` set ws"
      then obtain p where p: "p \<in> set ws" "p_id (persons s ! i) = p_id (persons s ! p)"
        by auto
      then have "i = p"
        using distinct_nth_eq [OF dp i, of p] ws by simp
      then show "i \<in> set ws" using p by simp
    qed simp
    show "(t_id (theaters ?s ! j) \<in> set (p_assigned (persons ?s ! i)))
        = (p_id (persons ?s ! i) \<in> set (t_assigned (theaters ?s ! j)))"
      unfolding pid tid w h using old a b by auto
  qed
qed

lemma consistent_bucket_loop:
  assumes run: "bucket_loop elig grps t counts seats s = Some s'"
    and m: "members grps \<subseteq> {..<length (persons s)}"
    and t: "t < length (theaters s)"
    and c: "consistent s \<and> ids_unique s"
  shows "consistent s' \<and> ids_unique s'"
proof -
  let ?P = "\<lambda>(k::jsnum) x. (consistent x \<and> ids_unique x) \<and> shape x = shape s"
  have "\<exists>k. ?P k s'"
    using run
  proof (rule bucket_loop_rule [where P = ?P])
    show "(consistent s \<and> ids_unique s) \<and> shape s = shape s" using c by simp
  next
    fix seats cnt cands winners g' and x :: lottery
    assume x: "(consistent x \<and> ids_unique x) \<and> shape x = shape s"
      and f: "filter_opt (elig x) (groups_get grps cnt) = Some cands"
      and w: "pickWinners cands seats (rnd x) = (winners, g')"
    have tx: "t < length (theaters x)"
      using t x shape_theaters(1) [of x s] by simp
    have "p < length (persons x)" if "p \<in> set winners" for p
      using winners_facts(1) [OF f w that] groups_get_subset_members [of grps cnt] m x
        shape_persons(1) [of x s] by auto
    then have "consistent (assignWinners winners t (x\<lparr>rnd := g'\<rparr>))"
      using x tx by (intro consistent_assign) simp_all
    then show "(consistent (assignWinners winners t (x\<lparr>rnd := g'\<rparr>))
        \<and> ids_unique (assignWinners winners t (x\<lparr>rnd := g'\<rparr>)))
        \<and> shape (assignWinners winners t (x\<lparr>rnd := g'\<rparr>)) = shape s"
      using x ids_unique_shape [of "assignWinners winners t (x\<lparr>rnd := g'\<rparr>)" x]
      by (simp add: shape_assign)
  qed
  then show ?thesis by simp
qed

lemma within_capacity_iff:
  "within_capacity th \<longleftrightarrow> (\<exists>c. capacity th = Some c \<and> int (length (t_assigned th)) \<le> c)"
  by (auto simp: within_capacity_def num_le_def of_size_def split: option.splits)

lemma capacity_assign:
  assumes ok: "capacity_ok s" and t: "t < length (theaters s)"
    and ws: "\<forall>p\<in>set ws. p < length (persons s)"
    and seats: "num_le (Some k) (seats_left (theaters s ! t))"
    and len: "int (length ws) \<le> k"
  shows "capacity_ok (assignWinners ws t (s\<lparr>rnd := g\<rparr>))"
    and "num_le (num_sub (Some k) (of_size (length ws)))
           (seats_left (theaters (assignWinners ws t (s\<lparr>rnd := g\<rparr>)) ! t))"
proof -
  let ?s = "assignWinners ws t (s\<lparr>rnd := g\<rparr>)"
  have sh: "shape ?s = shape s" by (rule shape_assign)
  obtain c where c: "capacity (theaters s ! t) = Some c"
    "k \<le> c - int (length (t_assigned (theaters s ! t)))"
    using seats by (auto simp: seats_left_def num_le_def num_sub_def of_size_def split: option.splits)
  have h: "t_assigned (theaters ?s ! j) =
      (if j = t then fold set_add (map (\<lambda>p. p_id (persons s ! p)) ws) (t_assigned (theaters s ! t))
       else t_assigned (theaters s ! j))" if "j < length (theaters s)" for j
    by (rule holders_assign [OF t ws that])
  have l: "int (length (t_assigned (theaters ?s ! t))) \<le> int (length (t_assigned (theaters s ! t))) + int (length ws)"
    using length_fold_set_add [of "map (\<lambda>p. p_id (persons s ! p)) ws" "t_assigned (theaters s ! t)"]
    by (simp add: h [OF t])
  have cap: "capacity (theaters ?s ! j) = capacity (theaters s ! j)" if "j < length (theaters s)" for j
    using shape_theaters(5) [OF sh that] .
  show "capacity_ok ?s"
    unfolding capacity_ok_iff shape_theaters(1) [OF sh]
  proof (intro allI impI)
    fix j assume j: "j < length (theaters s)"
    have old: "within_capacity (theaters s ! j)"
      using ok j by (simp add: capacity_ok_iff)
    show "within_capacity (theaters ?s ! j)"
    proof (cases "j = t")
      case True
      then show ?thesis
        using c l len cap [OF t] by (simp add: within_capacity_iff)
    next
      case False
      then show ?thesis
        using old h [OF j] cap [OF j] by (simp add: within_capacity_iff)
    qed
  qed
  show "num_le (num_sub (Some k) (of_size (length ws))) (seats_left (theaters ?s ! t))"
    using c l cap [OF t] by (simp add: seats_left_def num_le_def num_sub_def of_size_def)
qed

lemma pickWinners_length_le:
  assumes "pickWinners cands (Some k) g = (winners, g')" and "0 \<le> k"
  shows "int (length winners) \<le> k"
  using pickWinners_length [OF assms(2), of cands g] assms(1) by simp

lemma capacity_bucket_loop:
  assumes run: "bucket_loop elig grps t counts (seats_left (theaters s ! t)) s = Some s'"
    and m: "members grps \<subseteq> {..<length (persons s)}"
    and t: "t < length (theaters s)"
    and c: "capacity_ok s"
  shows "capacity_ok s'"
proof -
  let ?P = "\<lambda>(k::jsnum) x. capacity_ok x \<and> shape x = shape s \<and> num_le k (seats_left (theaters x ! t))"
  have "within_capacity (theaters s ! t)"
    using c t by (simp add: capacity_ok_iff)
  then have init: "num_le (seats_left (theaters s ! t)) (seats_left (theaters s ! t))"
    by (auto simp: within_capacity_iff seats_left_def num_le_def num_sub_def of_size_def)
  have "\<exists>k. ?P k s'"
    using run
  proof (rule bucket_loop_rule [where P = ?P])
    show "capacity_ok s \<and> shape s = shape s
        \<and> num_le (seats_left (theaters s ! t)) (seats_left (theaters s ! t))"
      using c init by simp
  next
    fix seats cnt cands winners g' and x :: lottery
    assume x: "capacity_ok x \<and> shape x = shape s \<and> num_le seats (seats_left (theaters x ! t))"
      and pos: "\<not> num_le seats (Some 0)"
      and f: "filter_opt (elig x) (groups_get grps cnt) = Some cands"
      and w: "pickWinners cands seats (rnd x) = (winners, g')"
    obtain k where k: "seats = Some k" "0 \<le> k"
      using x pos by (cases seats) (auto simp: num_le_def)
    have tx: "t < length (theaters x)"
      using t x shape_theaters(1) [of x s] by simp
    have ws: "\<forall>p\<in>set winners. p < length (persons x)"
      using winners_facts(1) [OF f w] groups_get_subset_members [of grps cnt] m x
        shape_persons(1) [of x s] by auto
    have len: "int (length winners) \<le> k"
      using w k by (intro pickWinners_length_le) simp_all
    have sk: "num_le (Some k) (seats_left (theaters x ! t))"
      using x k by simp
    show "capacity_ok (assignWinners winners t (x\<lparr>rnd := g'\<rparr>))
        \<and> shape (assignWinners winners t (x\<lparr>rnd := g'\<rparr>)) = shape s
        \<and> num_le (num_sub seats (of_size (length winners)))
            (seats_left (theaters (assignWinners winners t (x\<lparr>rnd := g'\<rparr>)) ! t))"
      using capacity_assign [OF _ tx ws sk len, of g'] x k by (simp add: shape_assign)
  qed
  then show ?thesis by simp
qed

subsection \<open>One win in a round\<close>

lemma won_at_most_one_refl: "won_at_most_one rank s s i"
  by (simp add: won_at_most_one_def)

lemma won_at_most_one_length:
  "won_at_most_one rank s s' i \<Longrightarrow>
   length (p_assigned (persons s' ! i)) \<le> Suc (length (p_assigned (persons s ! i)))"
  by (auto simp: won_at_most_one_def Let_def)
    (metis length_append_singleton order_refl)

lemma won_assign:
  assumes sh: "shape x = shape s"
    and i: "i < length (persons s)"
    and t: "t < length (theaters x)"
    and old: "won_at_most_one rank s x i"
    and ws: "\<forall>p\<in>set ws. initial_eligible rank tm t x p = Some True"
  shows "won_at_most_one rank s (assignWinners ws t (x\<lparr>rnd := g\<rparr>)) i"
proof (cases "i \<in> set ws")
  case False
  have ix: "i < length (persons x)"
    using i shape_persons(1) [OF sh] by simp
  have "p_assigned (persons (assignWinners ws t (x\<lparr>rnd := g\<rparr>)) ! i) = p_assigned (persons x ! i)"
    using False by (simp add: wins_assign [OF t ix])
  then show ?thesis
    using old by (simp add: won_at_most_one_def)
next
  case True
  have ix: "i < length (persons x)"
    using i shape_persons(1) [OF sh] by simp
  let ?a = "t_id (theaters x ! t)"
  have e: "rank < length (prefs (persons x ! i))" "prefs (persons x ! i) ! rank = Some ?a"
    "?a \<notin> set (p_assigned (persons x ! i))"
    using initial_eligible_True [of rank tm t x i] ws True by simp_all
  have pr: "prefs (persons x ! i) = prefs (persons s ! i)"
    using shape_persons(3) [OF sh i] .
  have same: "p_assigned (persons x ! i) = p_assigned (persons s ! i)"
  proof (rule ccontr)
    assume "p_assigned (persons x ! i) \<noteq> p_assigned (persons s ! i)"
    then have "prefs (persons s ! i) ! rank = Some (last (p_assigned (persons x ! i)))"
      and "p_assigned (persons x ! i) = p_assigned (persons s ! i) @ [last (p_assigned (persons x ! i))]"
      using old by (simp_all add: won_at_most_one_def Let_def)
    then have "?a = last (p_assigned (persons x ! i))" and "last (p_assigned (persons x ! i)) \<in> set (p_assigned (persons x ! i))"
      using e(2) pr by (simp, metis in_set_conv_decomp)
    then show False using e(3) by simp
  qed
  have "p_assigned (persons (assignWinners ws t (x\<lparr>rnd := g\<rparr>)) ! i) = p_assigned (persons s ! i) @ [?a]"
    using True e(3) same by (simp add: wins_assign [OF t ix] set_add_def)
  then show ?thesis
    using e pr same by (simp add: won_at_most_one_def)
qed

lemma won_bucket_loop:
  assumes run: "bucket_loop (initial_eligible rank tm t) grps t counts seats x = Some x'"
    and sh: "shape x = shape s"
    and t: "t < length (theaters x)"
    and old: "\<forall>i<length (persons s). won_at_most_one rank s x i"
  shows "\<forall>i<length (persons s). won_at_most_one rank s x' i"
proof -
  let ?P = "\<lambda>(k::jsnum) y. shape y = shape s \<and> (\<forall>i<length (persons s). won_at_most_one rank s y i)"
  have "\<exists>k. ?P k x'"
    using run
  proof (rule bucket_loop_rule [where P = ?P])
    show "shape x = shape s \<and> (\<forall>i<length (persons s). won_at_most_one rank s x i)"
      using sh old by simp
  next
    fix seats cnt cands winners g' and y :: lottery
    assume y: "shape y = shape s \<and> (\<forall>i<length (persons s). won_at_most_one rank s y i)"
      and f: "filter_opt (initial_eligible rank tm t y) (groups_get grps cnt) = Some cands"
      and w: "pickWinners cands seats (rnd y) = (winners, g')"
    have ty: "t < length (theaters y)"
      using t y sh shape_theaters(1) [of y s] shape_theaters(1) [of x s] by simp
    have ws: "\<forall>p\<in>set winners. initial_eligible rank tm t y p = Some True"
      using winners_facts(2) [OF f w] by simp
    have "won_at_most_one rank s (assignWinners winners t (y\<lparr>rnd := g'\<rparr>)) i"
      if i: "i < length (persons s)" for i
    proof -
      have "shape y = shape s" and "won_at_most_one rank s y i"
        using y i by simp_all
      then show ?thesis
        using i ty ws won_assign by blast
    qed
    then show "shape (assignWinners winners t (y\<lparr>rnd := g'\<rparr>)) = shape s
        \<and> (\<forall>i<length (persons s). won_at_most_one rank s (assignWinners winners t (y\<lparr>rnd := g'\<rparr>)) i)"
      using y by (simp add: shape_assign)
  qed
  then show ?thesis by simp
qed

lemma won_initial_round:
  assumes "initial_round rank tm s = Some s'" and "i < length (persons s)"
  shows "won_at_most_one rank s s' i"
proof -
  let ?grps = "groupByAssignedCount (persons s) [0..<length (persons s)]"
  let ?Q = "\<lambda>x. shape x = shape s \<and> (\<forall>i<length (persons s). won_at_most_one rank s x i)"
  have r: "initial_theaters rank tm ?grps (group_counts ?grps) [0..<length (theaters s)] s = Some s'"
    using assms(1) by (simp add: initial_round_def Let_def)
  have "?Q s'"
    using r
  proof (rule initial_theaters_rule [where Q = ?Q])
    show "?Q s" by (simp add: won_at_most_one_refl)
  next
    fix t and x x' :: lottery
    assume t: "t \<in> set [0..<length (theaters s)]" and x: "?Q x"
      and b: "bucket_loop (initial_eligible rank tm t) ?grps t (group_counts ?grps)
                (seats_left (theaters x ! t)) x = Some x'"
    have tx: "t < length (theaters x)"
      using t x shape_theaters(1) [of x s] by simp
    have "shape x = shape s" and "\<forall>i<length (persons s). won_at_most_one rank s x i"
      using x by simp_all
    then have "\<forall>i<length (persons s). won_at_most_one rank s x' i"
      using tx by (intro won_bucket_loop [OF b]) simp_all
    then show "?Q x'"
      using shape_bucket_loop [OF b] x by simp
  qed
  then show ?thesis using assms(2) by simp
qed

lemma wins_initial_ranks:
  assumes "initial_ranks ranks tm s = Some s'" and "i < length (persons s)"
  shows "length (p_assigned (persons s' ! i)) \<le> length (p_assigned (persons s ! i)) + length ranks"
  using assms
proof (induction ranks arbitrary: s)
  case Nil
  then show ?case by simp
next
  case (Cons rank ranks)
  show ?case
  proof (cases "list_all is_full (theaters s)")
    case True
    then show ?thesis using Cons.prems by simp
  next
    case False
    then obtain s1 where r: "initial_round rank tm s = Some s1"
      and rest: "initial_ranks ranks tm s1 = Some s'"
      using Cons.prems(1) by (auto split: option.splits)
    have sh: "shape s1 = shape s" by (rule shape_initial_round [OF r])
    have i1: "i < length (persons s1)"
      using Cons.prems(2) shape_persons(1) [OF sh] by simp
    have "length (p_assigned (persons s1 ! i)) \<le> Suc (length (p_assigned (persons s ! i)))"
      using won_initial_round [OF r Cons.prems(2)] by (rule won_at_most_one_length)
    moreover have "length (p_assigned (persons s' ! i))
        \<le> length (p_assigned (persons s1 ! i)) + length ranks"
      using rest i1 by (rule Cons.IH)
    ultimately show ?thesis by simp
  qed
qed

subsection \<open>The frame of the vacancy lottery\<close>

text \<open>The vacancy lottery only touches the persons of the opt-in list.\<close>

lemma vacancy_frame_assign:
  assumes t: "t < length (theaters x)"
    and ws: "\<forall>p\<in>set ws. p < length (persons x) \<and> p_id (persons x ! p) \<in> V"
  shows "i < length (persons x) \<Longrightarrow> p_id (persons x ! i) \<notin> V \<Longrightarrow>
           persons (assignWinners ws t (x\<lparr>rnd := g\<rparr>)) ! i = persons x ! i"
    and "j < length (theaters x) \<Longrightarrow>
           set (t_assigned (theaters (assignWinners ws t (x\<lparr>rnd := g\<rparr>)) ! j))
           \<subseteq> set (t_assigned (theaters x ! j)) \<union> V"
    and "j < length (theaters x) \<Longrightarrow>
           set (t_assigned (theaters x ! j))
           \<subseteq> set (t_assigned (theaters (assignWinners ws t (x\<lparr>rnd := g\<rparr>)) ! j))"
proof -
  have w: "\<forall>p\<in>set ws. p < length (persons x)" using ws by simp
  show "persons (assignWinners ws t (x\<lparr>rnd := g\<rparr>)) ! i = persons x ! i"
    if "i < length (persons x)" "p_id (persons x ! i) \<notin> V"
  proof -
    have "i \<notin> set ws" using ws that(2) by auto
    then show ?thesis
      using assignWinners_person [of t "x\<lparr>rnd := g\<rparr>" i ws] t that(1) by simp
  qed
  show "set (t_assigned (theaters (assignWinners ws t (x\<lparr>rnd := g\<rparr>)) ! j))
      \<subseteq> set (t_assigned (theaters x ! j)) \<union> V" if "j < length (theaters x)"
    using ws by (auto simp: holders_assign [OF t w that] set_fold_set_add)
  show "set (t_assigned (theaters x ! j))
      \<subseteq> set (t_assigned (theaters (assignWinners ws t (x\<lparr>rnd := g\<rparr>)) ! j))"
    if "j < length (theaters x)"
    by (auto simp: holders_assign [OF t w that] set_fold_set_add)
qed

lemma only_touches_refl: "only_touches V s s"
  by (simp add: only_touches_def)

lemma only_touches_assign:
  assumes o: "only_touches V s x" and t: "t < length (theaters x)"
    and ws: "\<forall>p\<in>set ws. p < length (persons x) \<and> p_id (persons x ! p) \<in> V"
  shows "only_touches V s (assignWinners ws t (x\<lparr>rnd := g\<rparr>))"
proof -
  let ?x = "assignWinners ws t (x\<lparr>rnd := g\<rparr>)"
  have sh: "shape x = shape s" using o by (simp add: only_touches_def)
  have lp: "length (persons x) = length (persons s)"
    and lt: "length (theaters x) = length (theaters s)"
    using shape_persons(1) [OF sh] shape_theaters(1) [OF sh] by simp_all
  have a: "persons ?x ! i = persons s ! i"
    if "i < length (persons s)" "p_id (persons s ! i) \<notin> V" for i
  proof -
    have "persons x ! i = persons s ! i"
      using o that by (simp add: only_touches_def)
    moreover have "persons ?x ! i = persons x ! i"
      using that lp calculation by (intro vacancy_frame_assign(1) [OF t ws]) simp_all
    ultimately show ?thesis by simp
  qed
  have b: "set (t_assigned (theaters s ! j)) \<subseteq> set (t_assigned (theaters ?x ! j))
      \<and> set (t_assigned (theaters ?x ! j)) \<subseteq> set (t_assigned (theaters s ! j)) \<union> V"
    if "j < length (theaters s)" for j
  proof -
    have jx: "j < length (theaters x)" using that lt by simp
    have "set (t_assigned (theaters s ! j)) \<subseteq> set (t_assigned (theaters x ! j))"
      "set (t_assigned (theaters x ! j)) \<subseteq> set (t_assigned (theaters s ! j)) \<union> V"
      using o that by (simp_all add: only_touches_def)
    then show ?thesis
      using vacancy_frame_assign(2) [OF t ws jx, of g] vacancy_frame_assign(3) [OF t ws jx, of g]
      by blast
  qed
  show ?thesis
    using a b sh by (simp add: only_touches_def shape_assign)
qed

lemma only_touches_vacancy_theaters:
  assumes run: "vacancy_theaters tm cs ts s = Some s'"
    and cs: "\<forall>p\<in>set cs. p < length (persons s) \<and> p_id (persons s ! p) \<in> V"
    and ts: "set ts \<subseteq> {..<length (theaters s)}"
  shows "only_touches V s s'"
  using run
proof (rule vacancy_theaters_rule [where Q = "only_touches V s"])
  show "only_touches V s s" by (rule only_touches_refl)
next
  fix t and x x' :: lottery
  let ?grps = "groupByAssignedCount (persons x) cs"
  assume t: "t \<in> set ts" and x: "only_touches V s x"
    and b: "bucket_loop (vacancy_eligible tm t) ?grps t (group_counts ?grps)
              (seats_left (theaters x ! t)) x = Some x'"
  have sh: "shape x = shape s" using x by (simp add: only_touches_def)
  have tx: "t < length (theaters x)"
    using t ts shape_theaters(1) [OF sh] by auto
  let ?P = "\<lambda>(k::jsnum) y. only_touches V s y"
  have "\<exists>k. ?P k x'"
    using b
  proof (rule bucket_loop_rule [where P = ?P])
    show "only_touches V s x" by (rule x)
  next
    fix seats cnt cands winners g' and y :: lottery
    assume y: "only_touches V s y"
      and f: "filter_opt (vacancy_eligible tm t y) (groups_get ?grps cnt) = Some cands"
      and w: "pickWinners cands seats (rnd y) = (winners, g')"
    have shy: "shape y = shape s" using y by (simp add: only_touches_def)
    have ty: "t < length (theaters y)"
      using tx shape_theaters(1) [OF sh] shape_theaters(1) [OF shy] by simp
    have "p < length (persons y) \<and> p_id (persons y ! p) \<in> V" if "p \<in> set winners" for p
    proof -
      have "p \<in> set cs"
        using winners_facts(1) [OF f w that] groups_get_subset [of "persons x" cs cnt] by auto
      then have "p < length (persons s)" "p_id (persons s ! p) \<in> V"
        using cs by simp_all
      then show ?thesis
        using shape_persons(1,2) [OF shy] by simp
    qed
    then have "\<forall>p\<in>set winners. p < length (persons y) \<and> p_id (persons y ! p) \<in> V"
      by simp
    with y ty show "only_touches V s (assignWinners winners t (y\<lparr>rnd := g'\<rparr>))"
      by (rule only_touches_assign)
  qed
  then show "only_touches V s x'" by simp
qed

lemma set_new_Set: "set (new_Set xs) = set xs"
  by (simp add: new_Set_def set_fold_set_add)

lemma only_touches_runVacancyLottery:
  assumes "runVacancyLottery vl tm s = Some s'"
  shows "only_touches (set vl) s s'"
proof (cases "length (new_Set vl) = 0")
  case True
  then show ?thesis
    using assms by (simp add: runVacancyLottery_def only_touches_refl)
next
  case False
  let ?cs = "filter (\<lambda>p. p_id (persons s ! p) \<in> set (new_Set vl)) [0..<length (persons s)]"
  have "vacancy_theaters tm ?cs [0..<length (theaters s)] s = Some s'"
    using assms False by (simp add: runVacancyLottery_def Let_def)
  then show ?thesis
    by (rule only_touches_vacancy_theaters) (auto simp: set_new_Set)
qed

lemma runVacancyLottery_Nil: "runVacancyLottery [] tm s = Some s"
  by (simp add: runVacancyLottery_def new_Set_def)

subsection \<open>The invariants through both lotteries\<close>

lemma consistent_runInitialLottery:
  assumes "runInitialLottery tm n s = Some s'" and "consistent s \<and> ids_unique s"
  shows "consistent s' \<and> ids_unique s'"
  using assms
proof (rule runInitialLottery_lift [where Q = "\<lambda>x. consistent x \<and> ids_unique x"])
  fix elig grps t counts and x x' :: lottery
  assume "consistent x \<and> ids_unique x" "t < length (theaters x)"
    "members grps \<subseteq> {..<length (persons x)}"
    "bucket_loop elig grps t counts (seats_left (theaters x ! t)) x = Some x'"
  then show "consistent x' \<and> ids_unique x'"
    using consistent_bucket_loop by blast
qed

lemma consistent_runVacancyLottery:
  assumes "runVacancyLottery vl tm s = Some s'" and "consistent s \<and> ids_unique s"
  shows "consistent s' \<and> ids_unique s'"
  using assms
proof (rule runVacancyLottery_lift [where Q = "\<lambda>x. consistent x \<and> ids_unique x"])
  fix elig grps t counts and x x' :: lottery
  assume "consistent x \<and> ids_unique x" "t < length (theaters x)"
    "members grps \<subseteq> {..<length (persons x)}"
    "bucket_loop elig grps t counts (seats_left (theaters x ! t)) x = Some x'"
  then show "consistent x' \<and> ids_unique x'"
    using consistent_bucket_loop by blast
qed

lemma capacity_runInitialLottery:
  assumes "runInitialLottery tm n s = Some s'" and "capacity_ok s"
  shows "capacity_ok s'"
  using assms
proof (rule runInitialLottery_lift [where Q = capacity_ok])
  fix elig grps t counts and x x' :: lottery
  assume "capacity_ok x" "t < length (theaters x)"
    "members grps \<subseteq> {..<length (persons x)}"
    "bucket_loop elig grps t counts (seats_left (theaters x ! t)) x = Some x'"
  then show "capacity_ok x'"
    using capacity_bucket_loop by blast
qed

lemma capacity_runVacancyLottery:
  assumes "runVacancyLottery vl tm s = Some s'" and "capacity_ok s"
  shows "capacity_ok s'"
  using assms
proof (rule runVacancyLottery_lift [where Q = capacity_ok])
  fix elig grps t counts and x x' :: lottery
  assume "capacity_ok x" "t < length (theaters x)"
    "members grps \<subseteq> {..<length (persons x)}"
    "bucket_loop elig grps t counts (seats_left (theaters x ! t)) x = Some x'"
  then show "capacity_ok x'"
    using capacity_bucket_loop by blast
qed

lemma capacity_initial_state:
  assumes "list_all (\<lambda>r. num_le (Some 0) (tr_capacity r)) trs"
  shows "capacity_ok (initial_state n g trs ors)"
proof -
  have "within_capacity (make_theater r)" if "r \<in> set trs" for r
    using assms that by (simp add: list_all_iff within_capacity_def make_theater_def of_size_def)
  then show ?thesis
    by (simp add: capacity_ok_def initial_state_def list_all_iff)
qed

lemma ids_unique_initial_state:
  "distinct (map tr_id trs) \<Longrightarrow> distinct (map fst ors) \<Longrightarrow> ids_unique (initial_state n g trs ors)"
  by (simp add: ids_unique_def t_ids_initial_state p_ids_initial_state)

text \<open>The invariants at the end of a successful run.\<close>

lemma main_final:
  assumes "main cfg now trs ors vl = Inr out"
  obtains tm s0 s2 where "final_persons out = persons s2" and "final_theaters out = theaters s2"
    and "sound tm s2" and "consistent s2"
    and "capacity_ok s0 \<longrightarrow> capacity_ok s2"
    and "s0 = initial_state (cfg_maxOrders cfg)
              (createSeededRandom (fst (resolve_seed (cfg_seed cfg) now))) trs ors"
proof -
  let ?s0 = "initial_state (cfg_maxOrders cfg)
              (createSeededRandom (fst (resolve_seed (cfg_seed cfg) now))) trs ors"
  let ?tm = "make_theaterMap (theaters ?s0)"
  obtain s1 s2 where d: "distinct (map tr_id trs)" "distinct (map fst ors)"
    and r1: "runInitialLottery ?tm (cfg_maxOrders cfg) ?s0 = Some s1"
    and r2: "(if cfg_enableVacancy cfg then runVacancyLottery vl ?tm s1 else Some s1) = Some s2"
    and f: "final_persons out = persons s2" "final_theaters out = theaters s2"
    using assms by (rule main_Inr)
  have a0: "sound ?tm ?s0" and b0: "consistent ?s0 \<and> ids_unique ?s0"
    using d by (simp_all add: sound_initial_state consistent_initial_state ids_unique_initial_state)
  have a1: "sound ?tm s1"
    by (rule sound_runInitialLottery [OF r1 a0])
  have b1: "consistent s1 \<and> ids_unique s1"
    by (rule consistent_runInitialLottery [OF r1 b0])
  have c1: "capacity_ok ?s0 \<longrightarrow> capacity_ok s1"
    using capacity_runInitialLottery [OF r1] by blast
  have "sound ?tm s2 \<and> (consistent s2 \<and> ids_unique s2) \<and> (capacity_ok ?s0 \<longrightarrow> capacity_ok s2)"
  proof (cases "cfg_enableVacancy cfg")
    case True
    then have v: "runVacancyLottery vl ?tm s1 = Some s2" using r2 by simp
    show ?thesis
      using sound_runVacancyLottery [OF v a1] consistent_runVacancyLottery [OF v b1]
        capacity_runVacancyLottery [OF v] c1
      by blast
  next
    case False
    then show ?thesis using r2 a1 b1 c1 by simp
  qed
  then show ?thesis
    using f by (intro that [of s2 ?tm ?s0]) simp_all
qed

lemma selection_step_winners:
  assumes "selection_step elig grp t seats k s = Some s'"
  obtains ws g' where "s' = assignWinners ws t (s\<lparr>rnd := g'\<rparr>)"
    and "\<forall>p\<in>set ws. p \<in> set grp \<and> elig s p = Some True"
    and "\<And>c. seats = Some c \<Longrightarrow> 0 \<le> c \<Longrightarrow> int (length ws) \<le> c"
proof -
  obtain cands winners g' where f: "filter_opt (elig s) grp = Some cands"
    and w: "pickWinners cands seats (rnd s) = (winners, g')"
    and s': "s' = assignWinners (take k winners) t (s\<lparr>rnd := g'\<rparr>)"
    using assms by (rule selection_stepE)
  have a: "\<forall>p\<in>set (take k winners). p \<in> set grp \<and> elig s p = Some True"
    using winners_facts [OF f w] by (auto dest: in_set_takeD)
  have b: "int (length (take k winners)) \<le> c" if "seats = Some c" "0 \<le> c" for c
    using pickWinners_length_le [of cands c "rnd s" winners g'] w that by simp
  show ?thesis
    using s' a b by (rule that)
qed

subsection \<open>The claims\<close>

text \<open>
  C1: no theater ever has more holders than its capacity. When every capacity is a
  non-negative integer, the state that \<^verbatim>\<open>main\<close> builds is within capacity and so are the
  theaters of a successful run; both lotteries keep the invariant from any state that has
  it; a selection step with a positive number of seats, at most the seats left of its
  theater, keeps it after each of its registrations, and the seats that the loop keeps for
  the next bucket are again at most the seats left; and the selector never returns more
  winners than seats.
\<close>

theorem capacity_invariant:
  "(list_all (\<lambda>r. num_le (Some 0) (tr_capacity r)) theaterRows
      \<longrightarrow> capacity_ok (initial_state n g theaterRows orderRows))
   \<and> (list_all (\<lambda>r. num_le (Some 0) (tr_capacity r)) theaterRows
      \<and> main cfg now theaterRows orderRows vacancyLines = Inr out
      \<longrightarrow> list_all within_capacity (final_theaters out))
   \<and> (capacity_ok s \<and> runInitialLottery tm n s = Some s1 \<longrightarrow> capacity_ok s1)
   \<and> (capacity_ok s \<and> runVacancyLottery vl tm s = Some s2 \<longrightarrow> capacity_ok s2)
   \<and> (capacity_ok s \<and> t < length (theaters s) \<and> set grp \<subseteq> {..<length (persons s)}
        \<and> num_le seats (seats_left (theaters s ! t)) \<and> \<not> num_le seats (Some 0)
        \<and> selection_step elig grp t seats k s = Some s3
      \<longrightarrow> capacity_ok s3)
   \<and> (capacity_ok s \<and> t < length (theaters s) \<and> set grp \<subseteq> {..<length (persons s)}
        \<and> num_le seats (seats_left (theaters s ! t)) \<and> \<not> num_le seats (Some 0)
        \<and> filter_opt (elig s) grp = Some cs \<and> pickWinners cs seats (rnd s) = (ws, h)
      \<longrightarrow> num_le (num_sub seats (of_size (length ws)))
            (seats_left (theaters (assignWinners ws t (s\<lparr>rnd := h\<rparr>)) ! t)))
   \<and> (0 \<le> c \<and> pickWinners cands (Some c) g = (winners, g') \<longrightarrow> int (length winners) \<le> c)"
proof (intro conjI impI)
  assume "list_all (\<lambda>r. num_le (Some 0) (tr_capacity r)) theaterRows"
  then show "capacity_ok (initial_state n g theaterRows orderRows)"
    by (rule capacity_initial_state)
next
  assume a: "list_all (\<lambda>r. num_le (Some 0) (tr_capacity r)) theaterRows
      \<and> main cfg now theaterRows orderRows vacancyLines = Inr out"
  then obtain tm' s0 s2' where f: "final_theaters out = theaters s2'"
    and c: "capacity_ok s0 \<longrightarrow> capacity_ok s2'"
    and s0: "s0 = initial_state (cfg_maxOrders cfg)
              (createSeededRandom (fst (resolve_seed (cfg_seed cfg) now))) theaterRows orderRows"
    by (auto elim: main_final)
  have "capacity_ok s0"
    using a s0 by (simp add: capacity_initial_state)
  then show "list_all within_capacity (final_theaters out)"
    using c f by (simp add: capacity_ok_def)
next
  assume "capacity_ok s \<and> runInitialLottery tm n s = Some s1"
  then show "capacity_ok s1"
    using capacity_runInitialLottery by blast
next
  assume "capacity_ok s \<and> runVacancyLottery vl tm s = Some s2"
  then show "capacity_ok s2"
    using capacity_runVacancyLottery by blast
next
  assume a: "capacity_ok s \<and> t < length (theaters s) \<and> set grp \<subseteq> {..<length (persons s)}
        \<and> num_le seats (seats_left (theaters s ! t)) \<and> \<not> num_le seats (Some 0)
        \<and> selection_step elig grp t seats k s = Some s3"
  then obtain ws g'' where s3: "s3 = assignWinners ws t (s\<lparr>rnd := g''\<rparr>)"
    and ws: "\<forall>p\<in>set ws. p \<in> set grp \<and> elig s p = Some True"
    and len: "\<And>c. seats = Some c \<Longrightarrow> 0 \<le> c \<Longrightarrow> int (length ws) \<le> c"
    by (auto elim: selection_step_winners)
  obtain c' where c': "seats = Some c'" "0 \<le> c'"
    using a by (cases seats) (auto simp: num_le_def)
  have "capacity_ok (assignWinners ws t (s\<lparr>rnd := g''\<rparr>))"
  proof (rule capacity_assign(1))
    show "capacity_ok s" "t < length (theaters s)" using a by simp_all
    show "\<forall>p\<in>set ws. p < length (persons s)" using ws a by auto
    show "num_le (Some c') (seats_left (theaters s ! t))" using a c' by simp
    show "int (length ws) \<le> c'" using len c' by simp
  qed
  then show "capacity_ok s3" using s3 by simp
next
  assume a: "capacity_ok s \<and> t < length (theaters s) \<and> set grp \<subseteq> {..<length (persons s)}
        \<and> num_le seats (seats_left (theaters s ! t)) \<and> \<not> num_le seats (Some 0)
        \<and> filter_opt (elig s) grp = Some cs \<and> pickWinners cs seats (rnd s) = (ws, h)"
  then have f: "filter_opt (elig s) grp = Some cs" and w: "pickWinners cs seats (rnd s) = (ws, h)"
    by simp_all
  obtain c' where c': "seats = Some c'" "0 \<le> c'"
    using a by (cases seats) (auto simp: num_le_def)
  have "num_le (num_sub (Some c') (of_size (length ws)))
      (seats_left (theaters (assignWinners ws t (s\<lparr>rnd := h\<rparr>)) ! t))"
  proof (rule capacity_assign(2))
    show "capacity_ok s" "t < length (theaters s)" using a by simp_all
    show "\<forall>p\<in>set ws. p < length (persons s)"
      using winners_facts(1) [OF f w] a by auto
    show "num_le (Some c') (seats_left (theaters s ! t))" using a c' by simp
    show "int (length ws) \<le> c'"
      using w c' by (intro pickWinners_length_le) simp_all
  qed
  then show "num_le (num_sub seats (of_size (length ws)))
      (seats_left (theaters (assignWinners ws t (s\<lparr>rnd := h\<rparr>)) ! t))"
    using c' by simp
next
  assume "0 \<le> c \<and> pickWinners cands (Some c) g = (winners, g')"
  then show "int (length winners) \<le> c"
    using pickWinners_length_le by blast
qed

lemma sound_selection_step:
  assumes "sound tm s" and "t < length (theaters s)" and "is_filter tm t elig"
    and "selection_step elig grp t seats k s = Some s'"
  shows "sound tm s'"
proof -
  obtain ws g' where s': "s' = assignWinners ws t (s\<lparr>rnd := g'\<rparr>)"
    and ws: "\<forall>p\<in>set ws. p \<in> set grp \<and> elig s p = Some True"
    using assms(4) by (auto elim: selection_step_winners)
  have "\<forall>p\<in>set ws. hasConflict (persons s ! p) (theaters s ! t) tm (theaters s) = Some False"
    using ws is_filter_True [OF assms(3)] by blast
  then show ?thesis
    using assms(1,2) s' by (simp add: sound_assign)
qed

text \<open>
  C2: no person ever holds two theaters of the same time slot or of the same play. A run
  never stops on the lookup of the conflict check; the state that \<^verbatim>\<open>main\<close> builds from
  theaters with unique ids is sound and the persons of a successful run are all free of
  conflicts; both lotteries keep the state sound, and so does each registration of a
  selection step of the initial lottery and of the vacancy lottery.
\<close>

theorem conflict_invariant:
  "main cfg now theaterRows orderRows vacancyLines \<noteq> Inl TypeError
   \<and> (distinct (map tr_id theaterRows)
      \<longrightarrow> sound (make_theaterMap (theaters (initial_state n g theaterRows orderRows)))
            (initial_state n g theaterRows orderRows))
   \<and> (main cfg now theaterRows orderRows vacancyLines = Inr out
      \<longrightarrow> list_all (conflict_free (final_theaters out)) (final_persons out))
   \<and> (sound tm s \<and> runInitialLottery tm n s = Some s1 \<longrightarrow> sound tm s1)
   \<and> (sound tm s \<and> runVacancyLottery vl tm s = Some s2 \<longrightarrow> sound tm s2)
   \<and> (sound tm s \<and> t < length (theaters s)
        \<and> selection_step (initial_eligible rank tm t) grp t seats k s = Some s3
      \<longrightarrow> sound tm s3)
   \<and> (sound tm s \<and> t < length (theaters s)
        \<and> selection_step (vacancy_eligible tm t) grp t seats k s = Some s4
      \<longrightarrow> sound tm s4)"
proof (intro conjI impI)
  show "main cfg now theaterRows orderRows vacancyLines \<noteq> Inl TypeError"
    by (rule main_no_TypeError)
next
  assume "distinct (map tr_id theaterRows)"
  then show "sound (make_theaterMap (theaters (initial_state n g theaterRows orderRows)))
      (initial_state n g theaterRows orderRows)"
    by (rule sound_initial_state)
next
  assume "main cfg now theaterRows orderRows vacancyLines = Inr out"
  then obtain tm' s2' where "final_persons out = persons s2'" "final_theaters out = theaters s2'"
    "sound tm' s2'"
    by (auto elim: main_final)
  then show "list_all (conflict_free (final_theaters out)) (final_persons out)"
    by (simp add: sound_def no_conflicts_def)
next
  assume "sound tm s \<and> runInitialLottery tm n s = Some s1"
  then show "sound tm s1"
    using sound_runInitialLottery by blast
next
  assume "sound tm s \<and> runVacancyLottery vl tm s = Some s2"
  then show "sound tm s2"
    using sound_runVacancyLottery by blast
next
  assume a: "sound tm s \<and> t < length (theaters s)
        \<and> selection_step (initial_eligible rank tm t) grp t seats k s = Some s3"
  have "is_filter tm t (initial_eligible rank tm t)"
    by (auto simp: is_filter_def)
  then show "sound tm s3"
    using a sound_selection_step by blast
next
  assume a: "sound tm s \<and> t < length (theaters s)
        \<and> selection_step (vacancy_eligible tm t) grp t seats k s = Some s4"
  have "is_filter tm t (vacancy_eligible tm t)"
    by (simp add: is_filter_def)
  then show "sound tm s4"
    using a sound_selection_step by blast
qed

lemma register_both:
  assumes "p < length (persons s)" and "t < length (theaters s)"
  shows "t_id (theaters s ! t) \<in> set (p_assigned (persons (register p t s) ! p))"
    and "p_id (persons s ! p) \<in> set (t_assigned (theaters (register p t s) ! t))"
    and "set (p_assigned (persons s ! i)) \<subseteq> set (p_assigned (persons (register p t s) ! i))"
    and "set (t_assigned (theaters s ! j)) \<subseteq> set (t_assigned (theaters (register p t s) ! j))"
proof -
  show "t_id (theaters s ! t) \<in> set (p_assigned (persons (register p t s) ! p))"
    and "p_id (persons s ! p) \<in> set (t_assigned (theaters (register p t s) ! t))"
    using assms by (simp_all add: register_def Let_def set_set_add)
  show "set (p_assigned (persons s ! i)) \<subseteq> set (p_assigned (persons (register p t s) ! i))"
    using assms by (cases "i = p") (auto simp: register_def Let_def set_set_add)
  show "set (t_assigned (theaters s ! j)) \<subseteq> set (t_assigned (theaters (register p t s) ! j))"
    using assms by (cases "j = t") (auto simp: register_def Let_def set_set_add)
qed

text \<open>
  C6: wins and holders agree at every point. One registration puts the theater into the
  wins of the person and the person into the holders of the theater, and removes nothing;
  the state that \<^verbatim>\<open>main\<close> builds is consistent, with unique ids when the ids of the rows
  do not repeat; in a successful run a theater id is among the final wins of a person
  exactly when the person id is among the final holders of the theater; both lotteries keep
  the agreement from any state with unique ids, and so does each registration of a
  selection step.
\<close>

theorem wins_holders_consistent:
  "(p < length (persons s) \<and> t < length (theaters s)
      \<longrightarrow> t_id (theaters s ! t) \<in> set (p_assigned (persons (register p t s) ! p))
          \<and> p_id (persons s ! p) \<in> set (t_assigned (theaters (register p t s) ! t))
          \<and> set (p_assigned (persons s ! i)) \<subseteq> set (p_assigned (persons (register p t s) ! i))
          \<and> set (t_assigned (theaters s ! j)) \<subseteq> set (t_assigned (theaters (register p t s) ! j)))
   \<and> consistent (initial_state n g theaterRows orderRows)
   \<and> (distinct (map tr_id theaterRows) \<and> distinct (map fst orderRows)
      \<longrightarrow> ids_unique (initial_state n g theaterRows orderRows))
   \<and> (main cfg now theaterRows orderRows vacancyLines = Inr out
      \<longrightarrow> list_all (\<lambda>pe. list_all (\<lambda>th.
              (t_id th \<in> set (p_assigned pe)) = (p_id pe \<in> set (t_assigned th)))
            (final_theaters out)) (final_persons out))
   \<and> (consistent s \<and> ids_unique s \<and> runInitialLottery tm n s = Some s1 \<longrightarrow> consistent s1)
   \<and> (consistent s \<and> ids_unique s \<and> runVacancyLottery vl tm s = Some s2 \<longrightarrow> consistent s2)
   \<and> (consistent s \<and> ids_unique s \<and> t < length (theaters s)
        \<and> set grp \<subseteq> {..<length (persons s)}
        \<and> selection_step elig grp t seats k s = Some s3
      \<longrightarrow> consistent s3)"
proof (intro conjI impI)
  assume a: "p < length (persons s) \<and> t < length (theaters s)"
  show "t_id (theaters s ! t) \<in> set (p_assigned (persons (register p t s) ! p))"
    and "p_id (persons s ! p) \<in> set (t_assigned (theaters (register p t s) ! t))"
    and "set (p_assigned (persons s ! i)) \<subseteq> set (p_assigned (persons (register p t s) ! i))"
    and "set (t_assigned (theaters s ! j)) \<subseteq> set (t_assigned (theaters (register p t s) ! j))"
    using a register_both [of p s t] by simp_all
next
  show "consistent (initial_state n g theaterRows orderRows)"
    by (rule consistent_initial_state)
next
  assume "distinct (map tr_id theaterRows) \<and> distinct (map fst orderRows)"
  then show "ids_unique (initial_state n g theaterRows orderRows)"
    by (simp add: ids_unique_initial_state)
next
  assume "main cfg now theaterRows orderRows vacancyLines = Inr out"
  then obtain s2' where "final_persons out = persons s2'" "final_theaters out = theaters s2'"
    "consistent s2'"
    by (auto elim: main_final)
  then show "list_all (\<lambda>pe. list_all (\<lambda>th.
              (t_id th \<in> set (p_assigned pe)) = (p_id pe \<in> set (t_assigned th)))
            (final_theaters out)) (final_persons out)"
    by (simp add: consistent_def)
next
  assume "consistent s \<and> ids_unique s \<and> runInitialLottery tm n s = Some s1"
  then show "consistent s1"
    using consistent_runInitialLottery by blast
next
  assume "consistent s \<and> ids_unique s \<and> runVacancyLottery vl tm s = Some s2"
  then show "consistent s2"
    using consistent_runVacancyLottery by blast
next
  assume a: "consistent s \<and> ids_unique s \<and> t < length (theaters s)
        \<and> set grp \<subseteq> {..<length (persons s)}
        \<and> selection_step elig grp t seats k s = Some s3"
  then obtain ws g'' where s3: "s3 = assignWinners ws t (s\<lparr>rnd := g''\<rparr>)"
    and ws: "\<forall>p\<in>set ws. p \<in> set grp \<and> elig s p = Some True"
    by (auto elim: selection_step_winners)
  have "\<forall>p\<in>set ws. p < length (persons s)"
    using ws a by auto
  then show "consistent s3"
    using a s3 by (simp add: consistent_assign)
qed

text \<open>
  C10: in one round of the initial lottery a person wins at most one theater, the one of the
  preference at the rank of the round, so that the initial lottery adds at most
  \<open>maxOrders\<close> wins to a person; started by \<^verbatim>\<open>main\<close> with empty sets of wins, it ends
  with at most \<open>maxOrders\<close> wins for each person.
\<close>

theorem one_win_per_round:
  "(initial_round rank tm s = Some s1 \<and> i < length (persons s) \<longrightarrow> won_at_most_one rank s s1 i)
   \<and> (runInitialLottery tm n s = Some s2 \<and> i < length (persons s)
      \<longrightarrow> length (p_assigned (persons s2 ! i)) \<le> length (p_assigned (persons s ! i)) + n)
   \<and> (runInitialLottery tm n (initial_state n g theaterRows orderRows) = Some s3
      \<longrightarrow> list_all (\<lambda>pe. length (p_assigned pe) \<le> n) (persons s3))"
proof (intro conjI impI)
  assume "initial_round rank tm s = Some s1 \<and> i < length (persons s)"
  then show "won_at_most_one rank s s1 i"
    using won_initial_round by blast
next
  assume "runInitialLottery tm n s = Some s2 \<and> i < length (persons s)"
  then show "length (p_assigned (persons s2 ! i)) \<le> length (p_assigned (persons s ! i)) + n"
    using wins_initial_ranks [of "[0..<n]" tm s s2 i] by (simp add: runInitialLottery_def)
next
  let ?s = "initial_state n g theaterRows orderRows"
  assume r: "runInitialLottery tm n ?s = Some s3"
  have sh: "shape s3 = shape ?s" by (rule shape_runInitialLottery [OF r])
  have "length (p_assigned (persons s3 ! i)) \<le> n" if "i < length (persons s3)" for i
  proof -
    have i: "i < length (persons ?s)"
      using that shape_persons(1) [OF sh] by simp
    have "length (p_assigned (persons s3 ! i)) \<le> length (p_assigned (persons ?s ! i)) + n"
      using wins_initial_ranks [of "[0..<n]" tm ?s s3 i] r i by (simp add: runInitialLottery_def)
    then show ?thesis
      using wins_initial_state [OF i] by simp
  qed
  then show "list_all (\<lambda>pe. length (p_assigned pe) \<le> n) (persons s3)"
    by (simp add: list_all_length)
qed

lemma only_touches_person:
  "only_touches V s s' \<Longrightarrow> i < length (persons s) \<Longrightarrow> p_id (persons s ! i) \<notin> V \<Longrightarrow>
   persons s' ! i = persons s ! i"
  by (simp add: only_touches_def)

lemma only_touches_holders:
  "only_touches V s s' \<Longrightarrow> j < length (theaters s) \<Longrightarrow> a \<notin> V \<Longrightarrow>
   (a \<in> set (t_assigned (theaters s' ! j))) = (a \<in> set (t_assigned (theaters s ! j)))"
  by (auto simp: only_touches_def)

text \<open>
  C5: the vacancy lottery runs only when it is enabled and touches only the persons of the
  opt-in list. With \<^verbatim>\<open>enableVacancy\<close> false a run ends in the state that the initial
  lottery leaves, whatever the list. When the vacancy lottery runs, a person whose id is not
  in the list is the same object afterwards, an id that is not in the list is a holder of a
  theater afterwards exactly when it was before, and an empty list leaves the whole state
  as it is.
\<close>

theorem backfill_containment:
  "(\<not> cfg_enableVacancy cfg \<and> main cfg now theaterRows orderRows vacancyLines = Inr out
      \<longrightarrow> (\<exists>s1. runInitialLottery
                   (make_theaterMap (theaters (initial_state (cfg_maxOrders cfg)
                      (createSeededRandom (fst (resolve_seed (cfg_seed cfg) now)))
                      theaterRows orderRows)))
                   (cfg_maxOrders cfg)
                   (initial_state (cfg_maxOrders cfg)
                      (createSeededRandom (fst (resolve_seed (cfg_seed cfg) now)))
                      theaterRows orderRows) = Some s1
                \<and> final_persons out = persons s1 \<and> final_theaters out = theaters s1))
   \<and> (runVacancyLottery vl tm s = Some s2 \<and> i < length (persons s)
        \<and> p_id (persons s ! i) \<notin> set vl
      \<longrightarrow> persons s2 ! i = persons s ! i)
   \<and> (runVacancyLottery vl tm s = Some s2 \<and> j < length (theaters s) \<and> a \<notin> set vl
      \<longrightarrow> (a \<in> set (t_assigned (theaters s2 ! j))) = (a \<in> set (t_assigned (theaters s ! j))))
   \<and> runVacancyLottery [] tm s = Some s"
proof (intro conjI impI)
  assume a: "\<not> cfg_enableVacancy cfg \<and> main cfg now theaterRows orderRows vacancyLines = Inr out"
  let ?s0 = "initial_state (cfg_maxOrders cfg)
      (createSeededRandom (fst (resolve_seed (cfg_seed cfg) now))) theaterRows orderRows"
  obtain s1 s2' where "runInitialLottery (make_theaterMap (theaters ?s0)) (cfg_maxOrders cfg) ?s0 = Some s1"
    and "(if cfg_enableVacancy cfg
          then runVacancyLottery vacancyLines (make_theaterMap (theaters ?s0)) s1
          else Some s1) = Some s2'"
    and "final_persons out = persons s2'" and "final_theaters out = theaters s2'"
    using a by (auto elim: main_Inr)
  then show "\<exists>s1. runInitialLottery (make_theaterMap (theaters ?s0)) (cfg_maxOrders cfg) ?s0 = Some s1
      \<and> final_persons out = persons s1 \<and> final_theaters out = theaters s1"
    using a by auto
next
  assume "runVacancyLottery vl tm s = Some s2 \<and> i < length (persons s)
        \<and> p_id (persons s ! i) \<notin> set vl"
  then show "persons s2 ! i = persons s ! i"
    using only_touches_runVacancyLottery only_touches_person by blast
next
  assume "runVacancyLottery vl tm s = Some s2 \<and> j < length (theaters s) \<and> a \<notin> set vl"
  then show "(a \<in> set (t_assigned (theaters s2 ! j))) = (a \<in> set (t_assigned (theaters s ! j)))"
    using only_touches_runVacancyLottery only_touches_holders by blast
next
  show "runVacancyLottery [] tm s = Some s"
    by (rule runVacancyLottery_Nil)
qed

text \<open>
  C7: the vacancy lottery never selects a person for a theater that the person already
  holds. In a sound and consistent state, a winner of a selection step of the vacancy
  lottery has no conflict with the theater, has not won it and is not among its holders:
  the filter tests the conflict only, and a theater that is among the wins of a person is
  in conflict with itself. The vacancy lottery is always in such a state: the initial
  lottery started by \<^verbatim>\<open>main\<close> ends in one, and each registration of a selection step
  of the vacancy lottery leads to one again.
\<close>

theorem backfill_not_holding:
  "(sound tm s \<and> consistent s \<and> t < length (theaters s) \<and> set grp \<subseteq> {..<length (persons s)}
     \<and> filter_opt (vacancy_eligible tm t s) grp = Some eligible
     \<and> pickWinners eligible seats (rnd s) = (winners, g') \<and> p \<in> set winners
   \<longrightarrow> hasConflict (persons s ! p) (theaters s ! t) tm (theaters s) = Some False
       \<and> t_id (theaters s ! t) \<notin> set (p_assigned (persons s ! p))
       \<and> p_id (persons s ! p) \<notin> set (t_assigned (theaters s ! t)))
   \<and> (sound tm s \<and> consistent s \<and> ids_unique s \<and> t < length (theaters s)
        \<and> set grp \<subseteq> {..<length (persons s)}
        \<and> selection_step (vacancy_eligible tm t) grp t seats k s = Some s3
      \<longrightarrow> sound tm s3 \<and> consistent s3 \<and> ids_unique s3)
   \<and> (distinct (map tr_id theaterRows) \<and> distinct (map fst orderRows)
        \<and> runInitialLottery (make_theaterMap (theaters (initial_state n g theaterRows orderRows)))
             n (initial_state n g theaterRows orderRows) = Some s1
      \<longrightarrow> sound (make_theaterMap (theaters (initial_state n g theaterRows orderRows))) s1
          \<and> consistent s1 \<and> ids_unique s1)"
proof (intro conjI impI)
  assume a: "sound tm s \<and> consistent s \<and> t < length (theaters s) \<and> set grp \<subseteq> {..<length (persons s)}
     \<and> filter_opt (vacancy_eligible tm t s) grp = Some eligible
     \<and> pickWinners eligible seats (rnd s) = (winners, g') \<and> p \<in> set winners"
  then have f: "filter_opt (vacancy_eligible tm t s) grp = Some eligible"
    and w: "pickWinners eligible seats (rnd s) = (winners, g')" and p: "p \<in> set winners"
    by simp_all
  have pg: "p \<in> set grp" and e: "vacancy_eligible tm t s p = Some True"
    using winners_facts [OF f w p] by simp_all
  have pl: "p < length (persons s)" using pg a by auto
  show nc: "hasConflict (persons s ! p) (theaters s ! t) tm (theaters s) = Some False"
    using e by (rule vacancy_eligible_True)
  show nw: "t_id (theaters s ! t) \<notin> set (p_assigned (persons s ! p))"
  proof
    assume "t_id (theaters s ! t) \<in> set (p_assigned (persons s ! p))"
    then obtain k where k: "tm (t_id (theaters s ! t)) = Some k"
      "timeSlot (theaters s ! k) \<noteq> timeSlot (theaters s ! t)"
      using hasConflict_loop_False [OF nc [unfolded hasConflict_def]] by blast
    have "k = t" using a k(1) by (simp add: sound_def wf_map_iff)
    then show False using k(2) by simp
  qed
  show "p_id (persons s ! p) \<notin> set (t_assigned (theaters s ! t))"
    using nw a pl by (simp add: consistent_iff)
next
  assume a: "sound tm s \<and> consistent s \<and> ids_unique s \<and> t < length (theaters s)
        \<and> set grp \<subseteq> {..<length (persons s)}
        \<and> selection_step (vacancy_eligible tm t) grp t seats k s = Some s3"
  then obtain ws g'' where s3: "s3 = assignWinners ws t (s\<lparr>rnd := g''\<rparr>)"
    and ws: "\<forall>p\<in>set ws. p \<in> set grp \<and> vacancy_eligible tm t s p = Some True"
    by (auto elim: selection_step_winners)
  have nc: "\<forall>p\<in>set ws. hasConflict (persons s ! p) (theaters s ! t) tm (theaters s) = Some False"
    using ws vacancy_eligible_True by blast
  have rg: "\<forall>p\<in>set ws. p < length (persons s)"
    using ws a by auto
  show "sound tm s3"
    using a s3 nc by (simp add: sound_assign)
  show "consistent s3"
    using a s3 rg by (simp add: consistent_assign)
  show "ids_unique s3"
    using a s3 ids_unique_shape [of "assignWinners ws t (s\<lparr>rnd := g''\<rparr>)" s]
    by (simp add: shape_assign)
next
  let ?s0 = "initial_state n g theaterRows orderRows"
  assume a: "distinct (map tr_id theaterRows) \<and> distinct (map fst orderRows)
        \<and> runInitialLottery (make_theaterMap (theaters ?s0)) n ?s0 = Some s1"
  then have r: "runInitialLottery (make_theaterMap (theaters ?s0)) n ?s0 = Some s1"
    by simp
  show "sound (make_theaterMap (theaters ?s0)) s1"
    using a by (intro sound_runInitialLottery [OF r] sound_initial_state) simp
  have "consistent s1 \<and> ids_unique s1"
    using a by (intro consistent_runInitialLottery [OF r])
      (simp add: consistent_initial_state ids_unique_initial_state)
  then show "consistent s1" and "ids_unique s1"
    by simp_all
qed

lemma shuffle_loop_st_eq:
  "a < length st \<Longrightarrow>
   shuffle_loop_st a k st g
     = (st[a := fst (shuffle_loop k (st ! a) g)], snd (shuffle_loop k (st ! a) g))"
proof (induction k arbitrary: st g)
  case 0
  then show ?case by simp
next
  case (Suc k)
  obtain u g' where r: "random_next g = (u, g')"
    by (cases "random_next g")
  let ?arr = "st ! a"
  let ?j = "random_index u (Suc k)"
  let ?st = "st[a := ?arr[Suc k := ?arr ! ?j, ?j := ?arr ! Suc k]]"
  have "shuffle_loop_st a k ?st g'
      = (?st[a := fst (shuffle_loop k (?st ! a) g')], snd (shuffle_loop k (?st ! a) g'))"
    using Suc.prems by (intro Suc.IH) simp
  then show ?case
    using r Suc.prems by (simp add: Let_def)
qed

lemma createShuffledArray_st_eq:
  "array < length st \<Longrightarrow>
   createShuffledArray_st array st g
     = (length st, st @ [fst (createShuffledArray (st ! array) g)],
        snd (createShuffledArray (st ! array) g))"
  by (simp add: createShuffledArray_st_def Let_def shuffle_loop_st_eq createShuffledArray_def
      nth_append list_update_append)

lemma pickWinners_st_eq:
  assumes "candidates < length st"
  shows "pickWinners_st candidates seats st g =
     (if num_le (of_size (length (st ! candidates))) seats then (candidates, st, g)
      else (Suc (length st),
            st @ [fst (createShuffledArray (st ! candidates) g),
                  slice0 (fst (createShuffledArray (st ! candidates) g)) seats],
            snd (createShuffledArray (st ! candidates) g)))"
  using assms
  by (simp add: pickWinners_st_def createShuffledArray_st_eq Let_def nth_append)

text \<open>
  The loop of \<^verbatim>\<open>createShuffledArray\<close> is the Fisher-Yates shuffle of the specification:
  the integer chosen for the index \<open>i\<close> is \<open>random_index\<close> of the next number of the
  generator and \<open>i\<close>.
\<close>

lemma exchange_eq:
  "i < length a \<Longrightarrow> j < length a \<Longrightarrow> exchange i j a = a[i := a ! j, j := a ! i]"
  by (rule nth_equalityI) (auto simp: exchange_def nth_list_update)

lemma calls_range: "u \<in> set (fst (calls k g)) \<Longrightarrow> 0 \<le> u \<and> u < 2 ^ 32"
proof (induction k arbitrary: g)
  case 0
  then show ?case by simp
next
  case (Suc k)
  obtain v g1 where r: "random_next g = (v, g1)"
    by (cases "random_next g")
  have "u = v \<or> u \<in> set (fst (calls k g1))"
    using Suc.prems r by (simp add: split_beta)
  then show ?case
    using random_next_range [OF r] Suc.IH [of g1] by auto
qed

lemma shuffle_loop_fisher_yates:
  "k < length xs \<Longrightarrow>
   shuffle_loop k xs g
     = (fisher_yates_spec k (map2 random_index (fst (calls k g)) (rev [1..<Suc k])) xs,
        snd (calls k g))"
proof (induction k arbitrary: xs g)
  case 0
  then show ?case by simp
next
  case (Suc k)
  obtain u g1 where r: "random_next g = (u, g1)"
    by (cases "random_next g")
  let ?j = "random_index u (Suc k)"
  have j: "?j \<le> Suc k"
    using random_next_range [OF r] by (simp add: random_index_le)
  let ?ys = "xs[Suc k := xs ! ?j, ?j := xs ! Suc k]"
  have e: "exchange (Suc k) ?j xs = ?ys"
    using Suc.prems j by (intro exchange_eq) simp_all
  have c: "calls (Suc k) g = (u # fst (calls k g1), snd (calls k g1))"
    using r by (simp add: split_beta)
  have u: "rev [1..<Suc (Suc k)] = Suc k # rev [1..<Suc k]"
    by simp
  have "shuffle_loop k ?ys g1
      = (fisher_yates_spec k (map2 random_index (fst (calls k g1)) (rev [1..<Suc k])) ?ys,
         snd (calls k g1))"
    using Suc.prems by (intro Suc.IH) simp
  then show ?case
    using r by (simp only: shuffle_loop.simps Let_def split_conv c u fst_conv snd_conv
        zip_Cons_Cons list.map fisher_yates_spec.simps e)
qed

lemma createShuffledArray_fisher_yates:
  "createShuffledArray xs g
     = (fisher_yates_spec (length xs - 1)
          (map2 random_index (fst (calls (length xs - 1) g)) (rev [1..<length xs])) xs,
        snd (calls (length xs - 1) g))"
proof (cases xs)
  case Nil
  then show ?thesis by (simp add: createShuffledArray_def)
next
  case (Cons a list)
  then have "Suc (length xs - 1) = length xs" "length xs - 1 < length xs"
    by simp_all
  then show ?thesis
    using shuffle_loop_fisher_yates [of "length xs - 1" xs g]
    by (simp add: createShuffledArray_def)
qed

text \<open>
  C4: the selector. With the heap explicit and \<open>seats\<close> a non-negative integer, the array
  \<open>candidates\<close> and every other array of the heap are the same after the call. When there
  are enough seats the result is the reference \<open>candidates\<close> itself, and neither the heap
  nor the random number generator has changed. Otherwise the heap has two new arrays, the
  shuffled copy and its first \<open>seats\<close> elements, and the result is the second of them.
  The shuffled copy is the Fisher-Yates shuffle of the specification on the candidates:
  with \<open>n\<close> candidates the generator is called \<open>n - 1\<close> times, the integer chosen for the
  index \<open>i\<close>, from \<open>n - 1\<close> down to 1, is \<^verbatim>\<open>Math.floor(random() * (i + 1))\<close> of the next
  number \<open>u / 2 ^ 32\<close>; every number of the generator is in range, every choice is at most
  \<open>i\<close>, and the choice is the floor of the real product as long as \<open>u * (i + 1) < 2 ^ 53\<close>,
  which covers every array of at most \<open>2 ^ 21\<close> elements (beyond, the product of the
  doubles is rounded before the floor, as \<open>round_double\<close> says). The shuffled copy is a
  permutation of the candidates. The result and the new generator are those of the
  function \<open>pickWinners\<close> on values that the lotteries use, and a selection step on a
  bucket with at most \<open>seats\<close> eligible persons registers them all.
\<close>

theorem pickWinners_spec:
  "(candidates < length st \<and> 0 \<le> c \<and> pickWinners_st candidates (Some c) st g = (r, st', g')
      \<longrightarrow> take (length st) st' = st
          \<and> (st' ! r, g') = pickWinners (st ! candidates) (Some c) g
          \<and> (if int (length (st ! candidates)) \<le> c
              then r = candidates \<and> st' = st \<and> g' = g
              else r \<noteq> candidates
                 \<and> st' ! r = take (nat c) (fst (createShuffledArray (st ! candidates) g))
                 \<and> g' = snd (createShuffledArray (st ! candidates) g)
                 \<and> (let n = length (st ! candidates);
                         shuffled = fisher_yates_spec (n - 1)
                           (map2 random_index (fst (calls (n - 1) g)) (rev [1..<n])) (st ! candidates)
                     in r = Suc (length st) \<and> st' = st @ [shuffled, take (nat c) shuffled]
                        \<and> g' = snd (calls (n - 1) g))))
   \<and> createShuffledArray xs g
       = (fisher_yates_spec (length xs - 1)
            (map2 random_index (fst (calls (length xs - 1) g)) (rev [1..<length xs])) xs,
          snd (calls (length xs - 1) g))
   \<and> (u \<in> set (fst (calls k g)) \<longrightarrow> 0 \<le> u \<and> u < 2 ^ 32)
   \<and> (0 \<le> u \<and> u < 2 ^ 32 \<longrightarrow> random_index u i \<le> i)
   \<and> (0 \<le> u \<and> u * (int i + 1) < 2 ^ 53
      \<longrightarrow> random_index u i = nat \<lfloor>real_of_int u / 4294967296 * (real i + 1)\<rfloor>)
   \<and> mset (fst (createShuffledArray xs g)) = mset xs
   \<and> (filter_opt (elig s) grp = Some cands \<and> int (length cands) \<le> c
      \<longrightarrow> selection_step elig grp t (Some c) (length cands) s = Some (assignWinners cands t s))"
proof (intro conjI impI)
  assume a: "candidates < length st \<and> 0 \<le> c \<and> pickWinners_st candidates (Some c) st g = (r, st', g')"
  then have e: "(r, st', g') =
     (if num_le (of_size (length (st ! candidates))) (Some c) then (candidates, st, g)
      else (Suc (length st),
            st @ [fst (createShuffledArray (st ! candidates) g),
                  slice0 (fst (createShuffledArray (st ! candidates) g)) (Some c)],
            snd (createShuffledArray (st ! candidates) g)))"
    using pickWinners_st_eq [of candidates st "Some c" g] by simp
  have le: "num_le (of_size (length (st ! candidates))) (Some c) = (int (length (st ! candidates)) \<le> c)"
    by (simp add: num_le_def of_size_def)
  show "take (length st) st' = st"
    using e by (simp split: if_splits)
  show "(st' ! r, g') = pickWinners (st ! candidates) (Some c) g"
    using e by (simp add: pickWinners_def split_beta nth_append split: if_splits)
  show "if int (length (st ! candidates)) \<le> c
        then r = candidates \<and> st' = st \<and> g' = g
        else r \<noteq> candidates
           \<and> st' ! r = take (nat c) (fst (createShuffledArray (st ! candidates) g))
           \<and> g' = snd (createShuffledArray (st ! candidates) g)
           \<and> (let n = length (st ! candidates);
                   shuffled = fisher_yates_spec (n - 1)
                     (map2 random_index (fst (calls (n - 1) g)) (rev [1..<n])) (st ! candidates)
               in r = Suc (length st) \<and> st' = st @ [shuffled, take (nat c) shuffled]
                  \<and> g' = snd (calls (n - 1) g))"
  proof (cases "int (length (st ! candidates)) \<le> c")
    case True
    then show ?thesis
      using e by (simp add: le)
  next
    case False
    let ?sh = "fst (createShuffledArray (st ! candidates) g)"
    have r: "r = Suc (length st)" and s: "st' = st @ [?sh, slice0 ?sh (Some c)]"
      and g: "g' = snd (createShuffledArray (st ! candidates) g)"
      using e False by (simp_all add: le)
    have t: "slice0 ?sh (Some c) = take (nat c) ?sh"
      using a by (simp add: slice0_def)
    have n: "r \<noteq> candidates"
      using a r by simp
    have i: "st' ! r = take (nat c) ?sh"
      by (simp add: r s t nth_append)
    have f: "?sh = fisher_yates_spec (length (st ! candidates) - 1)
          (map2 random_index (fst (calls (length (st ! candidates) - 1) g))
             (rev [1..<length (st ! candidates)])) (st ! candidates)"
      and h: "snd (createShuffledArray (st ! candidates) g) = snd (calls (length (st ! candidates) - 1) g)"
      by (simp_all add: createShuffledArray_fisher_yates)
    have l: "let n = length (st ! candidates);
                   shuffled = fisher_yates_spec (n - 1)
                     (map2 random_index (fst (calls (n - 1) g)) (rev [1..<n])) (st ! candidates)
               in r = Suc (length st) \<and> st' = st @ [shuffled, take (nat c) shuffled]
                  \<and> g' = snd (calls (n - 1) g)"
      unfolding Let_def using r s t g f h by simp
    show ?thesis
      using False n i g l by simp
  qed
next
  show "createShuffledArray xs g
       = (fisher_yates_spec (length xs - 1)
            (map2 random_index (fst (calls (length xs - 1) g)) (rev [1..<length xs])) xs,
          snd (calls (length xs - 1) g))"
    by (rule createShuffledArray_fisher_yates)
next
  assume "u \<in> set (fst (calls k g))"
  then show "0 \<le> u" and "u < 2 ^ 32"
    using calls_range by blast+
next
  assume "0 \<le> u \<and> u < 2 ^ 32"
  then show "random_index u i \<le> i"
    by (simp add: random_index_le)
next
  assume "0 \<le> u \<and> u * (int i + 1) < 2 ^ 53"
  then show "random_index u i = nat \<lfloor>real_of_int u / 4294967296 * (real i + 1)\<rfloor>"
    by (simp add: random_index_floor)
next
  show "mset (fst (createShuffledArray xs g)) = mset xs"
    by (rule createShuffledArray_mset)
next
  assume "filter_opt (elig s) grp = Some cands \<and> int (length cands) \<le> c"
  then show "selection_step elig grp t (Some c) (length cands) s = Some (assignWinners cands t s)"
    by (simp add: selection_step_def pickWinners_all)
qed

text \<open>With a seed other than 0 in the settings, the clock has no part in the run.\<close>

lemma main_clock_independent:
  "cfg_seed cfg = Some v \<Longrightarrow> v \<noteq> 0 \<Longrightarrow>
   main cfg now1 theaterRows orderRows vl = main cfg now2 theaterRows orderRows vl"
  by (simp add: main_def resolve_seed_def)

text \<open>
  C3: two runs on the same files and the same settings with the seed 0 at two different
  times: the first gives the seat to P2, the second to P3.
\<close>

theorem seed_zero_runs_differ:
  "holders_of (main cfgZ 1700000000000 rowsZ ordersZ []) = Inr [[''P2'']]
   \<and> holders_of (main cfgZ 1762041600000 rowsZ ordersZ []) = Inr [[''P3'']]"
  by code_simp

text \<open>
  C9: a seed 0 in the settings is not used: the generator is seeded with the clock and the
  console reports the clock as the generated seed.
\<close>

theorem seed_zero_replaced:
  "resolve_seed (Some 0) now = (now, Some now)
   \<and> map_sum id reported_seed (main cfgZ 1762041600000 rowsZ ordersZ []) = Inr (Some 1762041600000)"
proof
  show "resolve_seed (Some 0) now = (now, Some now)"
    by (simp add: resolve_seed_def)
  show "map_sum id reported_seed (main cfgZ 1762041600000 rowsZ ordersZ []) = Inr (Some 1762041600000)"
    by code_simp
qed

subsection \<open>The claims on the run with three theaters\<close>

lemma runW:
  "main cfgW 0 rowsW ordersW vacancyW = Inr outW"
  "runInitialLottery mapW 2 stateW0 = Some stateW1"
  "runVacancyLottery vacancyW mapW stateW1 = Some stateW2"
  "initial_round 0 mapW stateW0 = Some roundW"
  "selection_step (initial_eligible 0 mapW 0) [0, 1, 2] 0 (Some 1) 1 stateW0 = Some stepW"
  by code_simp+

lemma lengthsW:
  "length (persons stateW0) = 3" "length (theaters stateW0) = 3"
  "length (persons stateW1) = 3" "length (theaters stateW1) = 3"
  by code_simp+

theorem capacity_invariant_witness:
  "list_all (\<lambda>r. num_le (Some 0) (tr_capacity r)) rowsW
   \<and> capacity_ok stateW0
   \<and> main cfgW 0 rowsW ordersW vacancyW = Inr outW
   \<and> list_all within_capacity (final_theaters outW)
   \<and> runInitialLottery mapW 2 stateW0 = Some stateW1 \<and> capacity_ok stateW1
   \<and> runVacancyLottery vacancyW mapW stateW1 = Some stateW2 \<and> capacity_ok stateW2
   \<and> 0 < length (theaters stateW0) \<and> set [0, 1, 2] \<subseteq> {..<length (persons stateW0)}
   \<and> num_le (Some 1) (seats_left (theaters stateW0 ! 0)) \<and> \<not> num_le (Some 1) (Some 0)
   \<and> selection_step (initial_eligible 0 mapW 0) [0, 1, 2] 0 (Some 1) 1 stateW0 = Some stepW
   \<and> capacity_ok stepW
   \<and> filter_opt (initial_eligible 0 mapW 0 stateW0) [0, 1, 2] = Some [0, 1]
   \<and> pickWinners [0::nat, 1] (Some 1) (rnd stateW0) = ([1], rngW)
   \<and> num_le (num_sub (Some 1) (of_size (length [1::nat])))
        (seats_left (theaters (assignWinners [1] 0 (stateW0\<lparr>rnd := rngW\<rparr>)) ! 0))
   \<and> (0::int) \<le> 1
   \<and> pickWinners [0::nat, 1] (Some 1) (createSeededRandom 1) = ([1], rngW)
   \<and> int (length [1::nat]) \<le> 1"
proof -
  note T = capacity_invariant [where theaterRows = rowsW and cfg = cfgW and now = 0
      and orderRows = ordersW and vacancyLines = vacancyW and out = outW
      and s = stateW0 and tm = mapW and n = 2 and ?s1.0 = stateW1
      and t = 0 and grp = "[0, 1, 2]" and seats = "Some 1" and elig = "initial_eligible 0 mapW 0"
      and k = 1 and ?s3.0 = stepW and cs = "[0, 1]" and ws = "[1]" and h = rngW
      and c = 1 and cands = "[0, 1]" and g = "createSeededRandom 1" and winners = "[1]" and g' = rngW]
  note U = capacity_invariant [where s = stateW1 and tm = mapW and vl = vacancyW and ?s2.0 = stateW2,
      THEN conjunct2, THEN conjunct2, THEN conjunct2, THEN conjunct1, rule_format]
  have h0: "list_all (\<lambda>r. num_le (Some 0) (tr_capacity r)) rowsW"
    by (simp add: rowsW_def num_le_def)
  have c0: "capacity_ok stateW0"
    using T [THEN conjunct1, rule_format, OF h0] by (simp add: stateW0_def)
  have c1: "list_all within_capacity (final_theaters outW)"
    using T [THEN conjunct2, THEN conjunct1, rule_format] h0 runW(1) by simp
  have c2: "capacity_ok stateW1"
    using T [THEN conjunct2, THEN conjunct2, THEN conjunct1, rule_format] c0 runW(2) by simp
  have c3: "capacity_ok stateW2"
    using U c2 runW(3) by simp
  have l: "0 < length (theaters stateW0)" "set [0, 1, 2] \<subseteq> {..<length (persons stateW0)}"
    by (simp_all add: lengthsW)
  have n: "num_le (Some 1) (seats_left (theaters stateW0 ! 0))" "\<not> num_le (Some 1) (Some 0)"
    by code_simp+
  have c4: "capacity_ok stepW"
    using T [THEN conjunct2, THEN conjunct2, THEN conjunct2, THEN conjunct2, THEN conjunct1, rule_format] c0 l n runW(5) by blast
  have f: "filter_opt (initial_eligible 0 mapW 0 stateW0) [0, 1, 2] = Some [0, 1]"
    and w: "pickWinners [0::nat, 1] (Some 1) (rnd stateW0) = ([1], rngW)"
    and w': "pickWinners [0::nat, 1] (Some 1) (createSeededRandom 1) = ([1], rngW)"
    by code_simp+
  have c5: "num_le (num_sub (Some 1) (of_size (length [1::nat])))
        (seats_left (theaters (assignWinners [1] 0 (stateW0\<lparr>rnd := rngW\<rparr>)) ! 0))"
    using T [THEN conjunct2, THEN conjunct2, THEN conjunct2, THEN conjunct2, THEN conjunct2, THEN conjunct1, rule_format] c0 l n f w by blast
  have z: "(0::int) \<le> 1"
    by simp
  have c6: "int (length [1::nat]) \<le> 1"
    using T [THEN conjunct2, THEN conjunct2, THEN conjunct2, THEN conjunct2, THEN conjunct2, THEN conjunct2, rule_format] z w' by blast
  show ?thesis
    by (intro conjI) (fact h0 c0 runW(1,2,3,5) c1 c2 c3 l n c4 f w c5 z w' c6)+
qed

lemma stepsW:
  "selection_step (initial_eligible 1 mapW 2) [0, 1, 2] 2 (Some 1) 1 roundW = Some stepW2"
  "selection_step (vacancy_eligible mapW 1) [0, 1, 2] 1 (Some 2) 1 stateW1 = Some stepV"
  "filter_opt (vacancy_eligible mapW 1 stateW1) [0, 1, 2] = Some [0, 1]"
  "pickWinners [0::nat, 1] (Some 2) (rnd stateW1) = ([0, 1], rngW)"
  "main (cfgW\<lparr>cfg_enableVacancy := False\<rparr>) 0 rowsW ordersW vacancyW = Inr outW1"
  "length (theaters roundW) = 3"
  by code_simp+

lemma soundW:
  "sound mapW stateW0" "sound mapW roundW" "sound mapW stateW1"
  "consistent stateW0" "consistent stateW1" "ids_unique stateW0" "ids_unique stateW1"
  by code_simp+

theorem conflict_invariant_witness:
  "distinct (map tr_id rowsW) \<and> sound mapW stateW0
   \<and> main cfgW 0 rowsW ordersW vacancyW = Inr outW
   \<and> list_all (conflict_free (final_theaters outW)) (final_persons outW)
   \<and> runInitialLottery mapW 2 stateW0 = Some stateW1 \<and> sound mapW stateW1
   \<and> runVacancyLottery vacancyW mapW stateW1 = Some stateW2 \<and> sound mapW stateW2
   \<and> sound mapW roundW \<and> 2 < length (theaters roundW)
   \<and> selection_step (initial_eligible 1 mapW 2) [0, 1, 2] 2 (Some 1) 1 roundW = Some stepW2
   \<and> sound mapW stepW2
   \<and> 1 < length (theaters stateW1)
   \<and> selection_step (vacancy_eligible mapW 1) [0, 1, 2] 1 (Some 2) 1 stateW1 = Some stepV
   \<and> sound mapW stepV"
proof -
  note T = conflict_invariant [where theaterRows = rowsW and cfg = cfgW and now = 0
      and orderRows = ordersW and vacancyLines = vacancyW and out = outW
      and s = stateW0 and tm = mapW and n = 2 and g = "createSeededRandom 1"
      and ?s1.0 = stateW1]
  note U = conflict_invariant [where s = stateW1 and tm = mapW and vl = vacancyW and ?s2.0 = stateW2
      and t = 1 and grp = "[0, 1, 2]" and seats = "Some 2" and k = 1 and ?s4.0 = stepV]
  note V = conflict_invariant [where s = roundW and tm = mapW and t = 2 and rank = 1
      and grp = "[0, 1, 2]" and seats = "Some 1" and k = 1 and ?s3.0 = stepW2]
  have d: "distinct (map tr_id rowsW)"
    by code_simp
  have c0: "sound mapW stateW0"
    using T [THEN conjunct2, THEN conjunct1, rule_format, OF d] by (simp add: mapW_def stateW0_def)
  have l: "2 < length (theaters roundW)" "1 < length (theaters stateW1)"
    by (simp_all add: stepsW(6) lengthsW)
  have c1: "list_all (conflict_free (final_theaters outW)) (final_persons outW)"
    using T [THEN conjunct2, THEN conjunct2, THEN conjunct1, rule_format] runW(1) by simp
  have c2: "sound mapW stateW1"
    using T [THEN conjunct2, THEN conjunct2, THEN conjunct2, THEN conjunct1, rule_format] c0 runW(2) by simp
  have c3: "sound mapW stateW2"
    using U [THEN conjunct2, THEN conjunct2, THEN conjunct2, THEN conjunct2, THEN conjunct1, rule_format] c2 runW(3) by simp
  have c4: "sound mapW stepW2"
    using V [THEN conjunct2, THEN conjunct2, THEN conjunct2, THEN conjunct2, THEN conjunct2, THEN conjunct1, rule_format] soundW(2) stepsW(1) l(1) by simp
  have c5: "sound mapW stepV"
    using U [THEN conjunct2, THEN conjunct2, THEN conjunct2, THEN conjunct2, THEN conjunct2, THEN conjunct2, rule_format] c2 stepsW(2) l(2) by simp
  show ?thesis
    by (intro conjI) (fact d c0 runW(1,2,3) soundW(2) stepsW(1,2) l c1 c2 c3 c4 c5)+
qed

theorem wins_holders_consistent_witness:
  "1 < length (persons stateW0) \<and> 0 < length (theaters stateW0)
   \<and> t_id (theaters stateW0 ! 0) \<in> set (p_assigned (persons (register 1 0 stateW0) ! 1))
   \<and> p_id (persons stateW0 ! 1) \<in> set (t_assigned (theaters (register 1 0 stateW0) ! 0))
   \<and> distinct (map tr_id rowsW) \<and> distinct (map fst ordersW)
   \<and> consistent stateW0 \<and> ids_unique stateW0
   \<and> main cfgW 0 rowsW ordersW vacancyW = Inr outW
   \<and> list_all (\<lambda>pe. list_all (\<lambda>th.
          (t_id th \<in> set (p_assigned pe)) = (p_id pe \<in> set (t_assigned th)))
        (final_theaters outW)) (final_persons outW)
   \<and> runInitialLottery mapW 2 stateW0 = Some stateW1 \<and> consistent stateW1
   \<and> ids_unique stateW1 \<and> runVacancyLottery vacancyW mapW stateW1 = Some stateW2
   \<and> consistent stateW2
   \<and> set [0, 1, 2] \<subseteq> {..<length (persons stateW0)}
   \<and> selection_step (initial_eligible 0 mapW 0) [0, 1, 2] 0 (Some 1) 1 stateW0 = Some stepW
   \<and> consistent stepW"
proof -
  note T = wins_holders_consistent [where p = 1 and t = 0 and s = stateW0 and i = 1 and j = 0
      and theaterRows = rowsW and cfg = cfgW and now = 0
      and orderRows = ordersW and vacancyLines = vacancyW and out = outW
      and tm = mapW and n = 2 and g = "createSeededRandom 1" and ?s1.0 = stateW1
      and elig = "initial_eligible 0 mapW 0" and grp = "[0, 1, 2]" and seats = "Some 1"
      and k = 1 and ?s3.0 = stepW]
  note U = wins_holders_consistent [where s = stateW1 and tm = mapW and vl = vacancyW
      and ?s2.0 = stateW2, THEN conjunct2, THEN conjunct2, THEN conjunct2, THEN conjunct2, THEN conjunct2, THEN conjunct1, rule_format]
  have l: "1 < length (persons stateW0)" "0 < length (theaters stateW0)"
    "set [0, 1, 2] \<subseteq> {..<length (persons stateW0)}"
    by (simp_all add: lengthsW)
  have d: "distinct (map tr_id rowsW)" "distinct (map fst ordersW)"
    by code_simp+
  have c0: "t_id (theaters stateW0 ! 0) \<in> set (p_assigned (persons (register 1 0 stateW0) ! 1))"
    "p_id (persons stateW0 ! 1) \<in> set (t_assigned (theaters (register 1 0 stateW0) ! 0))"
    using T [THEN conjunct1, rule_format] l(1,2) by simp_all
  have b1: "consistent stateW0"
    using T [THEN conjunct2, THEN conjunct1] by (simp add: stateW0_def)
  have b2: "ids_unique stateW0"
    using T [THEN conjunct2, THEN conjunct2, THEN conjunct1, rule_format] d by (simp add: stateW0_def)
  have c1: "list_all (\<lambda>pe. list_all (\<lambda>th.
          (t_id th \<in> set (p_assigned pe)) = (p_id pe \<in> set (t_assigned th)))
        (final_theaters outW)) (final_persons outW)"
    using T [THEN conjunct2, THEN conjunct2, THEN conjunct2, THEN conjunct1, rule_format] runW(1) by simp
  have c2: "consistent stateW1"
    using T [THEN conjunct2, THEN conjunct2, THEN conjunct2, THEN conjunct2, THEN conjunct1, rule_format] b1 b2 runW(2) by simp
  have c3: "consistent stateW2"
    using U c2 soundW(7) runW(3) by simp
  have c4: "consistent stepW"
    using T [THEN conjunct2, THEN conjunct2, THEN conjunct2, THEN conjunct2, THEN conjunct2, THEN conjunct2, rule_format] b1 b2 l(2,3) runW(5) by blast
  show ?thesis
    by (intro conjI) (fact l d c0 b1 b2 runW(1,2,3,5) soundW(7) c1 c2 c3 c4)+
qed

theorem one_win_per_round_witness:
  "initial_round 0 mapW stateW0 = Some roundW \<and> 1 < length (persons stateW0)
   \<and> won_at_most_one 0 stateW0 roundW 1
   \<and> runInitialLottery mapW 2 stateW0 = Some stateW1
   \<and> length (p_assigned (persons stateW1 ! 1)) \<le> length (p_assigned (persons stateW0 ! 1)) + 2
   \<and> runInitialLottery mapW 2 (initial_state 2 (createSeededRandom 1) rowsW ordersW) = Some stateW1
   \<and> list_all (\<lambda>pe. length (p_assigned pe) \<le> 2) (persons stateW1)"
proof -
  note T = one_win_per_round [where rank = 0 and tm = mapW and s = stateW0 and ?s1.0 = roundW
      and i = 1 and n = 2 and ?s2.0 = stateW1 and g = "createSeededRandom 1"
      and theaterRows = rowsW and orderRows = ordersW and ?s3.0 = stateW1]
  have l: "1 < length (persons stateW0)"
    by (simp add: lengthsW)
  have r: "runInitialLottery mapW 2 (initial_state 2 (createSeededRandom 1) rowsW ordersW) = Some stateW1"
    using runW(2) by (simp add: stateW0_def)
  have c1: "won_at_most_one 0 stateW0 roundW 1"
    using T runW(4) l by blast
  have c2: "length (p_assigned (persons stateW1 ! 1)) \<le> length (p_assigned (persons stateW0 ! 1)) + 2"
    using T runW(2) l by blast
  have c3: "list_all (\<lambda>pe. length (p_assigned pe) \<le> 2) (persons stateW1)"
    using T r by blast
  show ?thesis
    using runW(2,4) l r c1 c2 c3 by simp
qed

theorem backfill_containment_witness:
  "\<not> cfg_enableVacancy (cfgW\<lparr>cfg_enableVacancy := False\<rparr>)
   \<and> main (cfgW\<lparr>cfg_enableVacancy := False\<rparr>) 0 rowsW ordersW vacancyW = Inr outW1
   \<and> runInitialLottery mapW 2 stateW0 = Some stateW1
   \<and> final_persons outW1 = persons stateW1 \<and> final_theaters outW1 = theaters stateW1
   \<and> runVacancyLottery vacancyW mapW stateW1 = Some stateW2
   \<and> 2 < length (persons stateW1) \<and> p_id (persons stateW1 ! 2) \<notin> set vacancyW
   \<and> persons stateW2 ! 2 = persons stateW1 ! 2
   \<and> 1 < length (theaters stateW1) \<and> ''P3'' \<notin> set vacancyW
   \<and> (''P3'' \<in> set (t_assigned (theaters stateW2 ! 1)))
       = (''P3'' \<in> set (t_assigned (theaters stateW1 ! 1)))
   \<and> runVacancyLottery [] mapW stateW1 = Some stateW1"
proof -
  note T = backfill_containment [where cfg = "cfgW\<lparr>cfg_enableVacancy := False\<rparr>" and now = 0
      and theaterRows = rowsW and orderRows = ordersW and vacancyLines = vacancyW and out = outW1
      and vl = vacancyW and tm = mapW and s = stateW1 and ?s2.0 = stateW2 and i = 2
      and j = 1 and a = "''P3''"]
  have e: "\<not> cfg_enableVacancy (cfgW\<lparr>cfg_enableVacancy := False\<rparr>)"
    by simp
  have l: "2 < length (persons stateW1)" "1 < length (theaters stateW1)"
    by (simp_all add: lengthsW)
  have v: "p_id (persons stateW1 ! 2) \<notin> set vacancyW" "''P3'' \<notin> set vacancyW"
    by code_simp+
  have c1: "final_persons outW1 = persons stateW1 \<and> final_theaters outW1 = theaters stateW1"
    by (simp add: outW1_def)
  have c2: "persons stateW2 ! 2 = persons stateW1 ! 2"
    using T runW(3) l(1) v(1) by blast
  have c3: "(''P3'' \<in> set (t_assigned (theaters stateW2 ! 1)))
       = (''P3'' \<in> set (t_assigned (theaters stateW1 ! 1)))"
    using T runW(3) l(2) v(2) by blast
  have c4: "runVacancyLottery [] mapW stateW1 = Some stateW1"
    using T by blast
  show ?thesis
    using e stepsW(5) runW(2,3) l v c1 c2 c3 c4 by simp
qed

theorem backfill_not_holding_witness:
  "sound mapW stateW1 \<and> consistent stateW1 \<and> 1 < length (theaters stateW1)
   \<and> set [0, 1, 2] \<subseteq> {..<length (persons stateW1)}
   \<and> filter_opt (vacancy_eligible mapW 1 stateW1) [0, 1, 2] = Some [0, 1]
   \<and> pickWinners [0::nat, 1] (Some 2) (rnd stateW1) = ([0, 1], rngW) \<and> 0 \<in> set [0::nat, 1]
   \<and> hasConflict (persons stateW1 ! 0) (theaters stateW1 ! 1) mapW (theaters stateW1) = Some False
   \<and> t_id (theaters stateW1 ! 1) \<notin> set (p_assigned (persons stateW1 ! 0))
   \<and> p_id (persons stateW1 ! 0) \<notin> set (t_assigned (theaters stateW1 ! 1))
   \<and> ids_unique stateW1
   \<and> selection_step (vacancy_eligible mapW 1) [0, 1, 2] 1 (Some 2) 1 stateW1 = Some stepV
   \<and> sound mapW stepV \<and> consistent stepV \<and> ids_unique stepV
   \<and> distinct (map tr_id rowsW) \<and> distinct (map fst ordersW)
   \<and> runInitialLottery mapW 2 stateW0 = Some stateW1"
proof -
  note T = backfill_not_holding [where tm = mapW and s = stateW1 and t = 1 and grp = "[0, 1, 2]"
      and eligible = "[0, 1]" and seats = "Some 2" and winners = "[0, 1]" and g' = rngW and p = 0
      and k = 1 and ?s3.0 = stepV and theaterRows = rowsW and orderRows = ordersW and n = 2
      and g = "createSeededRandom 1" and ?s1.0 = stateW1]
  have l: "1 < length (theaters stateW1)" "set [0, 1, 2] \<subseteq> {..<length (persons stateW1)}"
    by (simp_all add: lengthsW)
  have d: "distinct (map tr_id rowsW)" "distinct (map fst ordersW)"
    by code_simp+
  have r: "runInitialLottery (make_theaterMap (theaters (initial_state 2 (createSeededRandom 1) rowsW ordersW)))
      2 (initial_state 2 (createSeededRandom 1) rowsW ordersW) = Some stateW1"
    using runW(2) by (simp add: mapW_def stateW0_def)
  have s1: "sound mapW stateW1 \<and> consistent stateW1 \<and> ids_unique stateW1"
    using T d r by (simp add: mapW_def stateW0_def)
  have c1: "hasConflict (persons stateW1 ! 0) (theaters stateW1 ! 1) mapW (theaters stateW1) = Some False
      \<and> t_id (theaters stateW1 ! 1) \<notin> set (p_assigned (persons stateW1 ! 0))
      \<and> p_id (persons stateW1 ! 0) \<notin> set (t_assigned (theaters stateW1 ! 1))"
    using T s1 l stepsW(3,4) by simp
  have c2: "sound mapW stepV \<and> consistent stepV \<and> ids_unique stepV"
    using T s1 l stepsW(2) by blast
  show ?thesis
    using s1 l stepsW(2,3,4) d runW(2) c1 c2 by simp
qed

theorem pickWinners_spec_witness:
  "(0::nat) < length [[''a'', ''b'', ''c'']] \<and> (0::int) \<le> 2
   \<and> pickWinners_st 0 (Some 2) [[''a'', ''b'', ''c'']] (createSeededRandom 1762041600000)
       = (2, [[''a'', ''b'', ''c''], [''c'', ''a'', ''b''], [''c'', ''a'']],
          \<lparr>rx = 521288629, ry = 1105008640, rz = 1731675723, rw = 1606746677\<rparr>)
   \<and> take (length [[''a'', ''b'', ''c'']])
        [[''a'', ''b'', ''c''], [''c'', ''a'', ''b''], [''c'', ''a'']] = [[''a'', ''b'', ''c'']]
   \<and> ([[''a'', ''b'', ''c''], [''c'', ''a'', ''b''], [''c'', ''a'']] ! 2,
        \<lparr>rx = 521288629, ry = 1105008640, rz = 1731675723, rw = 1606746677\<rparr>)
       = pickWinners ([[''a'', ''b'', ''c'']] ! 0) (Some 2) (createSeededRandom 1762041600000)
   \<and> \<not> int (length ([[''a'', ''b'', ''c'']] ! 0)) \<le> 2
   \<and> [[''a'', ''b'', ''c''], [''c'', ''a'', ''b''], [''c'', ''a'']]
       = [[''a'', ''b'', ''c'']]
         @ [fisher_yates_spec 2 [1, 0] [''a'', ''b'', ''c''],
            take (nat 2) (fisher_yates_spec 2 [1, 0] [''a'', ''b'', ''c''])]
   \<and> fst (calls 2 (createSeededRandom 1762041600000)) = [1731675723, 1606746677]
   \<and> map2 random_index (fst (calls 2 (createSeededRandom 1762041600000))) (rev [1..<3]) = [1, 0]
   \<and> createShuffledArray [''a'', ''b'', ''c''] (createSeededRandom 1762041600000)
       = (fisher_yates_spec 2 [1, 0] [''a'', ''b'', ''c''],
          snd (calls 2 (createSeededRandom 1762041600000)))
   \<and> fisher_yates_spec 2 [1, 0] [''a'', ''b'', ''c''] = [''c'', ''a'', ''b'']
   \<and> (1731675723::int) \<in> set (fst (calls 2 (createSeededRandom 1762041600000)))
   \<and> (0::int) \<le> 1731675723 \<and> (1731675723::int) < 2 ^ 32
   \<and> random_index 1731675723 2 \<le> 2
   \<and> (1731675723::int) * (int 2 + 1) < 2 ^ 53
   \<and> random_index 1731675723 2 = nat \<lfloor>real_of_int 1731675723 / 4294967296 * (real 2 + 1)\<rfloor>
   \<and> random_index 1731675723 2 = 1
   \<and> (0::int) \<le> 2146992945 \<and> (2146992945::int) < 2 ^ 32
   \<and> random_index 2146992945 4196910 \<le> 4196910
   \<and> random_index 2146992945 4196910 = 2097976
   \<and> (0::int) \<le> 3
   \<and> pickWinners_st 0 (Some 3) [[''a'', ''b'', ''c'']] (createSeededRandom 1762041600000)
       = (0, [[''a'', ''b'', ''c'']], createSeededRandom 1762041600000)
   \<and> take (length [[''a'', ''b'', ''c'']]) [[''a'', ''b'', ''c'']] = [[''a'', ''b'', ''c'']]
   \<and> filter_opt (initial_eligible 0 mapW 2 stateW0) [0, 1, 2] = Some [2]
   \<and> int (length [2::nat]) \<le> 2
   \<and> selection_step (initial_eligible 0 mapW 2) [0, 1, 2] 2 (Some 2) (length [2::nat]) stateW0
       = Some (assignWinners [2] 2 stateW0)"
proof -
  let ?xs = "[''a'', ''b'', ''c'']"
  let ?st = "[?xs]"
  let ?st' = "[?xs, [''c'', ''a'', ''b''], [''c'', ''a'']]"
  let ?seeded = "createSeededRandom 1762041600000"
  let ?after = "\<lparr>rx = 521288629, ry = 1105008640, rz = 1731675723, rw = 1606746677\<rparr>"
  note T = pickWinners_spec [where candidates = 0 and st = ?st and c = 2
      and g = ?seeded and r = 2 and st' = ?st' and g' = ?after and xs = ?xs
      and u = 1731675723 and k = 2 and i = 2
      and elig = "initial_eligible 0 mapW 2" and s = stateW0 and grp = "[0, 1, 2]"
      and cands = "[2]" and t = 2]
  note U = pickWinners_spec [where candidates = 0 and st = ?st and c = 3
      and g = ?seeded and r = 0 and st' = ?st and g' = ?seeded
      and u = 2146992945 and i = 4196910]
  have a1: "(0::nat) < length ?st" and a2: "(0::int) \<le> 2" and a3: "(0::int) \<le> 3"
    and a4: "int (length [2::nat]) \<le> 2" and a5: "\<not> int (length (?st ! 0)) \<le> 2"
    and a6: "(0::int) \<le> 1731675723" and a7: "(1731675723::int) < 2 ^ 32"
    and a8: "(1731675723::int) * (int 2 + 1) < 2 ^ 53"
    and a9: "(0::int) \<le> 2146992945" and a10: "(2146992945::int) < 2 ^ 32"
    by simp_all
  have w: "(word_of_int 1762041600000 :: 32 word) = 1105008640"
    by simp
  have "pickWinners_st 0 (Some 2) ?st ?seeded
      = (2, ?st', \<lparr>rx = 521288629, ry = word_of_int 1762041600000, rz = 1731675723,
           rw = 1606746677\<rparr>)"
    by code_simp
  then have h1: "pickWinners_st 0 (Some 2) ?st ?seeded = (2, ?st', ?after)"
    by (simp only: w)
  have h2: "pickWinners_st 0 (Some 3) ?st ?seeded = (0, ?st, ?seeded)"
    by code_simp
  have h3: "filter_opt (initial_eligible 0 mapW 2 stateW0) [0, 1, 2] = Some [2]"
    by code_simp
  have h4: "fst (calls 2 ?seeded) = [1731675723, 1606746677]"
    by code_simp
  have h5: "map2 random_index (fst (calls 2 ?seeded)) (rev [1..<3]) = [1, 0]"
    by code_simp
  have h6: "(1731675723::int) \<in> set (fst (calls 2 ?seeded))"
    by (simp add: h4)
  have h7: "random_index 1731675723 2 = 1"
    by code_simp
  have h8: "random_index 2146992945 4196910 = 2097976"
    by (simp add: random_index_def round_double_def ulp_exponent.simps Let_def)
  have h9: "fisher_yates_spec 2 [1, 0] ?xs = [''c'', ''a'', ''b'']"
    by code_simp
  have l: "length ?xs - 1 = 2" "length ?xs = 3" "length (?st ! 0) = 3" "?st ! 0 = ?xs"
    "(3::nat) - 1 = 2" "length ?st = 1"
    by simp_all
  have c1: "take (length ?st) ?st' = ?st"
    and c2: "(?st' ! 2, ?after) = pickWinners (?st ! 0) (Some 2) ?seeded"
    using T a1 a2 h1 by blast+
  have c3: "take (length ?st) ?st = ?st"
    using U a1 a3 h2 by blast
  have c4: "selection_step (initial_eligible 0 mapW 2) [0, 1, 2] 2 (Some 2) (length [2::nat]) stateW0
       = Some (assignWinners [2] 2 stateW0)"
    using T h3 a4 by blast
  have i: "if int (length (?st ! 0)) \<le> 2
        then 2 = (0::nat) \<and> ?st' = ?st \<and> ?after = ?seeded
        else 2 \<noteq> (0::nat)
           \<and> ?st' ! 2 = take (nat 2) (fst (createShuffledArray (?st ! 0) ?seeded))
           \<and> ?after = snd (createShuffledArray (?st ! 0) ?seeded)
           \<and> (let n = length (?st ! 0);
                   shuffled = fisher_yates_spec (n - 1)
                     (map2 random_index (fst (calls (n - 1) ?seeded)) (rev [1..<n])) (?st ! 0)
               in 2 = Suc (length ?st) \<and> ?st' = ?st @ [shuffled, take (nat 2) shuffled]
                  \<and> ?after = snd (calls (n - 1) ?seeded))"
    by (rule T [THEN conjunct1, rule_format, THEN conjunct2, THEN conjunct2])
      (intro conjI a1 a2 h1)
  have c5: "?st' = ?st @ [fisher_yates_spec 2 [1, 0] ?xs, take (nat 2) (fisher_yates_spec 2 [1, 0] ?xs)]"
    using i a5 by (simp only: if_False Let_def l h5)
  have c6: "createShuffledArray ?xs ?seeded = (fisher_yates_spec 2 [1, 0] ?xs, snd (calls 2 ?seeded))"
    using T [THEN conjunct2, THEN conjunct1] by (simp only: l h5)
  have c7: "(0::int) \<le> 1731675723 \<and> (1731675723::int) < 2 ^ 32"
    by (rule T [THEN conjunct2, THEN conjunct2, THEN conjunct1, rule_format]) (rule h6)
  have c8: "random_index 1731675723 2 \<le> 2"
    by (rule T [THEN conjunct2, THEN conjunct2, THEN conjunct2, THEN conjunct1, rule_format])
      (intro conjI a6 a7)
  have c9: "random_index 1731675723 2 = nat \<lfloor>real_of_int 1731675723 / 4294967296 * (real 2 + 1)\<rfloor>"
    by (rule T [THEN conjunct2, THEN conjunct2, THEN conjunct2, THEN conjunct2, THEN conjunct1,
          rule_format])
      (intro conjI a6 a8)
  have c10: "random_index 2146992945 4196910 \<le> 4196910"
    by (rule U [THEN conjunct2, THEN conjunct2, THEN conjunct2, THEN conjunct1, rule_format])
      (intro conjI a9 a10)
  show ?thesis
    by (intro conjI) (fact a1 a2 a3 a4 a5 a6 a7 a8 a9 a10 h1 h2 h3 h4 h5 h6 h7 h8 h9
        c1 c2 c3 c4 c5 c6 c7 c8 c9 c10)+
qed

subsection \<open>The check of the preferences\<close>

text \<open>
  C8: the check of the preferences against the known theater ids never fires.
  \<open>loadAndValidateOrders\<close> never returns the error for an unknown theater id, whatever
  the preference (empty, missing or not) and whatever the set of known ids; an input
  is rejected only for a duplicated person id and is returned as it is otherwise.
\<close>

theorem loadAndValidateOrders_never_unknown:
  "loadAndValidateOrders orders maxOrders theaterIdSet \<noteq> Inl (UnknownTheaterId personId theaterId)
   \<and> (loadAndValidateOrders orders maxOrders theaterIdSet = Inr orders
      \<or> loadAndValidateOrders orders maxOrders theaterIdSet
          = Inl (DuplicatePersonIds (new_Set (duplicates_of [] (map fst orders)))))"
  by (simp add: loadAndValidateOrders_def Let_def check_orders_None)

end
